theory Spec2Isabelle
  imports Main "HOL-Library.AList"
begin

section \<open>Python values and errors\<close>

text \<open>
  The exceptions the modelled code can raise: an out-of-range list index and an attribute
  access on \<open>None\<close> (\<open>self.set\<close> before \<open>initialize_ufset\<close>).
  A result of type \<open>error + 'a\<close> is \<open>Inl\<close> for a raised exception.
\<close>

datatype error = IndexError | AttributeError

text \<open>
  Python list indexing: an index \<open>i\<close> with \<open>-len \<le> i < 0\<close> counts from the end,
  anything outside \<open>-len \<le> i < len\<close> raises IndexError.
\<close>

definition py_index :: "nat \<Rightarrow> int \<Rightarrow> nat option" where
  "py_index len i =
     (if 0 \<le> i \<and> i < int len then Some (nat i)
      else if i < 0 \<and> - int len \<le> i then Some (nat (int len + i))
      else None)"

definition list_get :: "'a list \<Rightarrow> int \<Rightarrow> error + 'a" where
  "list_get xs i =
     (case py_index (length xs) i of None \<Rightarrow> Inl IndexError | Some k \<Rightarrow> Inr (xs ! k))"

definition list_set :: "'a list \<Rightarrow> int \<Rightarrow> 'a \<Rightarrow> error + 'a list" where
  "list_set xs i v =
     (case py_index (length xs) i of None \<Rightarrow> Inl IndexError | Some k \<Rightarrow> Inr (xs[k := v]))"

section \<open>class UnionFindSet\<close>

record UnionFindSet =
  fa :: "int list"
  uf_size :: int

text \<open>\<open>__init__\<close>: \<open>self.fa = [i for i in range(n + 1)]\<close>, \<open>self.size = n\<close>.\<close>

definition UnionFindSet_init :: "int \<Rightarrow> UnionFindSet" where
  "UnionFindSet_init n = \<lparr>fa = [0..n], uf_size = n\<rparr>"

text \<open>
  \<open>find\<close> with path compression. The recursion follows parent pointers and need not
  terminate on a cyclic parent array, so the function is partial: \<open>None\<close> is
  non-termination. A returned pair is the value or exception together with the
  structure as the call leaves it.
\<close>

partial_function (option) find_uf ::
    "UnionFindSet \<Rightarrow> int \<Rightarrow> ((error + int) \<times> UnionFindSet) option" where
  "find_uf s x =
     (case list_get (fa s) x of
        Inl e \<Rightarrow> Some (Inl e, s)
      | Inr p \<Rightarrow>
          if p \<noteq> x then
            Option.bind (find_uf s p) (\<lambda>(r, s1).
              case r of
                Inl e \<Rightarrow> Some (Inl e, s1)
              | Inr v \<Rightarrow>
                  (case list_set (fa s1) x v of
                     Inl e \<Rightarrow> Some (Inl e, s1)
                   | Inr l \<Rightarrow> Some (list_get l x, s1\<lparr>fa := l\<rparr>)))
          else Some (list_get (fa s) x, s))"

declare find_uf.simps [code]

definition union_uf ::
    "UnionFindSet \<Rightarrow> int \<Rightarrow> int \<Rightarrow> ((error + unit) \<times> UnionFindSet) option" where
  "union_uf s x y =
     Option.bind (find_uf s x) (\<lambda>(rx, s1).
       case rx of
         Inl e \<Rightarrow> Some (Inl e, s1)
       | Inr x' \<Rightarrow>
           Option.bind (find_uf s1 y) (\<lambda>(ry, s2).
             case ry of
               Inl e \<Rightarrow> Some (Inl e, s2)
             | Inr y' \<Rightarrow>
                 if x' \<noteq> y' then
                   (case list_set (fa s2) y' x' of
                      Inl e \<Rightarrow> Some (Inl e, s2)
                    | Inr l \<Rightarrow> Some (Inr (), s2\<lparr>fa := l\<rparr>))
                 else Some (Inr (), s2)))"

section \<open>class Topo (a networkx DiGraph)\<close>

text \<open>
  The graph keeps, as networkx does, insertion-ordered dictionaries: node to attributes
  and node to (successor to edge attributes). They are association lists with distinct
  keys; \<open>AList.update\<close> overwrites an existing key in place and appends a new one.
  Every edge is added with the three attributes \<open>src_port\<close>, \<open>dst_port\<close>, \<open>weight\<close>.
  The plotting state (\<open>plot_options\<close>, \<open>pos\<close>, the figure) has no effect on any value
  computed and is left out.
\<close>

record edge_data =
  src_port :: int
  dst_port :: int
  weight :: int

type_synonym edge = "int \<times> int \<times> edge_data"

record Topo =
  node_attrs :: "(int \<times> int list option) list"
  adj :: "(int \<times> (int \<times> edge_data) list) list"
  ufset :: "UnionFindSet option"
  MST_exist :: bool

definition Topo_init :: Topo where
  "Topo_init = \<lparr>node_attrs = [], adj = [], ufset = None, MST_exist = False\<rparr>"

definition has_node :: "Topo \<Rightarrow> int \<Rightarrow> bool" where
  "has_node t n = (map_of (adj t) n \<noteq> None)"

text \<open>One element \<open>(n, {"ports": ps})\<close> of \<open>add_nodes_from\<close>.\<close>

definition add_node :: "Topo \<Rightarrow> int \<times> int list \<Rightarrow> Topo" where
  "add_node t np =
     (let t1 = (if has_node t (fst np) then t
                else t\<lparr>node_attrs := node_attrs t @ [(fst np, None)],
                       adj := adj t @ [(fst np, [])]\<rparr>)
      in t1\<lparr>node_attrs := AList.update (fst np) (Some (snd np)) (node_attrs t1)\<rparr>)"

definition add_nodes_from :: "Topo \<Rightarrow> (int \<times> int list) list \<Rightarrow> Topo" where
  "add_nodes_from t nps = foldl add_node t nps"

text \<open>
  \<open>self.edges[u, v]\<close> where the edge exists; \<open>has_edge(u, v)\<close> is
  \<open>edge_lookup t u v \<noteq> None\<close>.
\<close>

definition edge_lookup :: "Topo \<Rightarrow> int \<Rightarrow> int \<Rightarrow> edge_data option" where
  "edge_lookup t u v =
     (case map_of (adj t) u of None \<Rightarrow> None | Some nbrs \<Rightarrow> map_of nbrs v)"

definition ensure_node :: "Topo \<Rightarrow> int \<Rightarrow> Topo" where
  "ensure_node t n =
     (if has_node t n then t
      else t\<lparr>node_attrs := node_attrs t @ [(n, None)], adj := adj t @ [(n, [])]\<rparr>)"

definition add_edge :: "Topo \<Rightarrow> int \<Rightarrow> int \<Rightarrow> edge_data \<Rightarrow> Topo" where
  "add_edge t u v d =
     (let t2 = ensure_node (ensure_node t u) v;
          nbrs = (case map_of (adj t2) u of None \<Rightarrow> [] | Some ns \<Rightarrow> ns)
      in t2\<lparr>adj := AList.update u (AList.update v d nbrs) (adj t2)\<rparr>)"

text \<open>\<open>self.edges(data=True)\<close>: by source node in node order, then by successor.\<close>

definition edges :: "Topo \<Rightarrow> edge list" where
  "edges t = concat (map (\<lambda>(u, nbrs). map (\<lambda>(v, d). (u, v, d)) nbrs) (adj t))"

definition initialize_ufset :: "Topo \<Rightarrow> int \<Rightarrow> Topo" where
  "initialize_ufset t n = t\<lparr>ufset := Some (UnionFindSet_init n)\<rparr>"

text \<open>
  The loop of \<open>Kruskal\<close> over the sorted edges, with the disjoint-set and the list
  \<open>tree_edges\<close> built so far.
\<close>

fun Kruskal_loop ::
    "UnionFindSet \<Rightarrow> edge list \<Rightarrow> (int \<times> int) list
      \<Rightarrow> ((error + (int \<times> int) list) \<times> UnionFindSet) option" where
  "Kruskal_loop s [] tree = Some (Inr tree, s)"
| "Kruskal_loop s (e # es) tree =
     Option.bind (find_uf s (fst e)) (\<lambda>(r1, s1).
       case r1 of
         Inl err \<Rightarrow> Some (Inl err, s1)
       | Inr a \<Rightarrow>
           Option.bind (find_uf s1 (fst (snd e))) (\<lambda>(r2, s2).
             case r2 of
               Inl err \<Rightarrow> Some (Inl err, s2)
             | Inr b \<Rightarrow>
                 if a \<noteq> b then
                   Option.bind (union_uf s2 (fst e) (fst (snd e))) (\<lambda>(r3, s3).
                     case r3 of
                       Inl err \<Rightarrow> Some (Inl err, s3)
                     | Inr _ \<Rightarrow> Kruskal_loop s3 es (tree @ [(fst e, fst (snd e))]))
                 else Kruskal_loop s2 es tree))"

text \<open>
  \<open>sorted(self.edges(data=True), key=lambda e: e[2]["weight"])\<close> is a stable sort, as
  \<open>sort_key\<close> is. With \<open>self.set\<close> still \<open>None\<close> the first \<open>self.set.find\<close> raises
  AttributeError; an empty edge list never reaches it. \<open>draw_tree\<close> only plots.
\<close>

definition edge_weight :: "edge \<Rightarrow> int" where
  "edge_weight e = weight (snd (snd e))"

definition Kruskal :: "Topo \<Rightarrow> ((error + (int \<times> int) list) \<times> Topo) option" where
  "Kruskal t =
     (let es = sort_key edge_weight (edges t) in
      case ufset t of
        None \<Rightarrow> Some (if es = [] then Inr [] else Inl AttributeError, t)
      | Some s \<Rightarrow>
          map_option (\<lambda>(r, s'). (r, t\<lparr>ufset := Some s'\<rparr>)) (Kruskal_loop s es []))"

section \<open>OpenFlow 1.3 and Ethernet constants used by the controller\<close>

definition OFPP_FLOOD :: int where "OFPP_FLOOD = 0xfffffffb"
definition OFPP_CONTROLLER :: int where "OFPP_CONTROLLER = 0xfffffffd"
definition OFPCML_MAX :: int where "OFPCML_MAX = 0xffe5"
definition OFPCML_NO_BUFFER :: int where "OFPCML_NO_BUFFER = 0xffff"
definition OFP_NO_BUFFER :: int where "OFP_NO_BUFFER = 0xffffffff"
definition OFPPC_PORT_DOWN :: int where "OFPPC_PORT_DOWN = 1"
definition OFPPC_NO_RECV :: int where "OFPPC_NO_RECV = 4"
definition OFPPC_NO_FWD :: int where "OFPPC_NO_FWD = 32"
definition OFPPC_NO_PACKET_IN :: int where "OFPPC_NO_PACKET_IN = 64"
definition ETH_TYPE_LLDP :: int where "ETH_TYPE_LLDP = 0x88cc"
definition ETH_TYPE_IPV6 :: int where "ETH_TYPE_IPV6 = 0x86dd"

section \<open>The discovery and session collaborators\<close>

text \<open>
  A datapath is a switch's control session; the controller reads only its id. What
  \<open>get_switch\<close> and \<open>get_link\<close> answer at the time of an event is the record
  \<open>discovery\<close>. Messages handed to \<open>datapath.send_msg\<close> are collected in the order sent.
\<close>

record datapath =
  dp_id :: int

record port =
  port_no :: int
  hw_addr :: string

record switch =
  sw_dp :: datapath
  sw_ports :: "port list"

record link =
  link_src_dpid :: int
  link_src_port :: int
  link_dst_dpid :: int
  link_dst_port :: int

record discovery =
  switches :: "switch list"
  links :: "link list"

datatype action = OFPActionOutput int int

datatype message =
    OFPPortMod datapath int string int int
  | OFPFlowMod datapath int int "(int \<times> string \<times> string) option" "action list"
  | OFPPacketOut datapath int int "action list" "string option"

definition get_switch :: "discovery \<Rightarrow> int option \<Rightarrow> switch list" where
  "get_switch env dpid =
     (case dpid of
        None \<Rightarrow> switches env
      | Some d \<Rightarrow> filter (\<lambda>sw. dp_id (sw_dp sw) = d) (switches env))"

definition get_link :: "discovery \<Rightarrow> link list" where
  "get_link env = links env"

section \<open>class KruskalController\<close>

record controller =
  datapaths :: "datapath list"
  mac_to_port :: "int \<rightharpoonup> (string \<rightharpoonup> int)"
  topo :: Topo

definition controller_init :: controller where
  "controller_init = \<lparr>datapaths = [], mac_to_port = Map.empty, topo = Topo_init\<rparr>"

definition find_datapath_by_id :: "controller \<Rightarrow> int \<Rightarrow> datapath option" where
  "find_datapath_by_id c dpid = List.find (\<lambda>dp. dp_id dp = dpid) (datapaths c)"

text \<open>\<open>add_flow\<close>: \<open>buffer_id or ofproto.OFP_NO_BUFFER\<close> replaces \<open>None\<close> and 0.\<close>

definition add_flow ::
    "datapath \<Rightarrow> int \<Rightarrow> (int \<times> string \<times> string) option \<Rightarrow> action list \<Rightarrow> int option
      \<Rightarrow> message list" where
  "add_flow dp priority match actions buffer_id =
     [OFPFlowMod dp
        (case buffer_id of None \<Rightarrow> OFP_NO_BUFFER
         | Some b \<Rightarrow> if b = 0 then OFP_NO_BUFFER else b)
        priority match actions]"

text \<open>
  \<open>send_port_mod\<close>: \<open>get_switch(self, dpid=datapath.id)[0]\<close> raises IndexError when
  discovery does not know the switch; an unknown port sends nothing. The mask is the
  bitwise or of four distinct flag bits, which is their sum.
\<close>

definition send_port_mod ::
    "discovery \<Rightarrow> datapath \<Rightarrow> int \<Rightarrow> int \<Rightarrow> error + message list" where
  "send_port_mod env dp pn opt =
     (case get_switch env (Some (dp_id dp)) of
        [] \<Rightarrow> Inl IndexError
      | sw # _ \<Rightarrow>
          (case List.find (\<lambda>p. port_no p = pn) (sw_ports sw) of
             None \<Rightarrow> Inr []
           | Some p \<Rightarrow>
               Inr [OFPPortMod dp pn (hw_addr p) opt
                      (OFPPC_PORT_DOWN + OFPPC_NO_RECV + OFPPC_NO_FWD + OFPPC_NO_PACKET_IN)]))"

text \<open>
  The loop of \<open>block_links\<close>. The result is the exception, if one is raised, and the
  messages sent up to then.
\<close>

fun block_links_loop ::
    "discovery \<Rightarrow> controller \<Rightarrow> (int \<times> int) list \<Rightarrow> edge list
      \<Rightarrow> (error + unit) \<times> message list" where
  "block_links_loop env c excepts [] = (Inr (), [])"
| "block_links_loop env c excepts (e # es) =
     (if (fst e, fst (snd e)) \<in> set excepts \<or> (fst (snd e), fst e) \<in> set excepts
      then block_links_loop env c excepts es
      else
        (case (find_datapath_by_id c (fst e), find_datapath_by_id c (fst (snd e))) of
           (Some src_dp, Some dst_dp) \<Rightarrow>
             (case send_port_mod env src_dp (src_port (snd (snd e))) OFPPC_PORT_DOWN of
                Inl err \<Rightarrow> (Inl err, [])
              | Inr m1 \<Rightarrow>
                  (case send_port_mod env dst_dp (dst_port (snd (snd e))) OFPPC_PORT_DOWN of
                     Inl err \<Rightarrow> (Inl err, m1)
                   | Inr m2 \<Rightarrow>
                       (case block_links_loop env c excepts es of
                          (r, ms) \<Rightarrow> (r, m1 @ m2 @ ms))))
         | _ \<Rightarrow> block_links_loop env c excepts es))"

definition block_links ::
    "discovery \<Rightarrow> controller \<Rightarrow> (int \<times> int) list \<Rightarrow> (error + unit) \<times> message list" where
  "block_links env c excepts = block_links_loop env c excepts (edges (topo c))"

definition switch_features_handler :: "datapath \<Rightarrow> message list" where
  "switch_features_handler dp =
     add_flow dp 0 None [OFPActionOutput OFPP_CONTROLLER OFPCML_NO_BUFFER] None"

text \<open>The fields of a packet-in event that the handler reads.\<close>

record packet_in =
  pi_datapath :: datapath
  pi_in_port :: int
  pi_buffer_id :: int
  pi_data :: string
  eth_type :: int
  eth_dst :: string
  eth_src :: string

definition forward :: "packet_in \<Rightarrow> int \<Rightarrow> message list" where
  "forward ev out_port =
     (let actions = [OFPActionOutput out_port OFPCML_MAX] in
      add_flow (pi_datapath ev) 1 (Some (pi_in_port ev, eth_dst ev, eth_src ev)) actions
        (Some (if pi_buffer_id ev = 0 then OFP_NO_BUFFER else pi_buffer_id ev))
      @ [OFPPacketOut (pi_datapath ev) (pi_buffer_id ev) (pi_in_port ev) actions
           (if pi_buffer_id ev = OFP_NO_BUFFER then Some (pi_data ev) else None)])"

text \<open>
  \<open>packet_in_handler\<close> in three parts. \<open>learn\<close> is
  \<open>self.mac_to_port.setdefault(dpid, {})[src_mac] = in_port\<close>; \<open>lookup_out_port\<close> is
  \<open>self.mac_to_port[dpid].get(dst_mac, ofproto.OFPP_FLOOD)\<close>; \<open>compute_and_enforce\<close>
  is the body of the \<open>if\<close>: \<open>Kruskal\<close>, \<open>block_links\<close>, \<open>MST_exist = True\<close>. A
  result is the exception or normal return, the controller as the code leaves it, and
  the messages sent.
\<close>

definition learn :: "controller \<Rightarrow> packet_in \<Rightarrow> controller" where
  "learn c ev =
     c\<lparr>mac_to_port := (mac_to_port c)(dp_id (pi_datapath ev) \<mapsto>
         (case mac_to_port c (dp_id (pi_datapath ev)) of None \<Rightarrow> Map.empty | Some m0 \<Rightarrow> m0)
           (eth_src ev \<mapsto> pi_in_port ev))\<rparr>"

definition lookup_out_port :: "controller \<Rightarrow> packet_in \<Rightarrow> int" where
  "lookup_out_port c ev =
     (case mac_to_port c (dp_id (pi_datapath ev)) of
        None \<Rightarrow> OFPP_FLOOD
      | Some m \<Rightarrow> (case m (eth_dst ev) of None \<Rightarrow> OFPP_FLOOD | Some p \<Rightarrow> p))"

definition compute_and_enforce ::
    "discovery \<Rightarrow> controller \<Rightarrow> ((error + unit) \<times> controller \<times> message list) option" where
  "compute_and_enforce env c =
     Option.bind (Kruskal (topo c)) (\<lambda>(r, t1).
       case r of
         Inl err \<Rightarrow> Some (Inl err, c\<lparr>topo := t1\<rparr>, [])
       | Inr tree_edges \<Rightarrow>
           (case block_links env (c\<lparr>topo := t1\<rparr>) tree_edges of
              (Inl err, ms) \<Rightarrow> Some (Inl err, c\<lparr>topo := t1\<rparr>, ms)
            | (Inr _, ms) \<Rightarrow> Some (Inr (), c\<lparr>topo := t1\<lparr>MST_exist := True\<rparr>\<rparr>, ms)))"

definition packet_in_handler ::
    "discovery \<Rightarrow> controller \<Rightarrow> packet_in
      \<Rightarrow> ((error + unit) \<times> controller \<times> message list) option" where
  "packet_in_handler env c ev =
     (if eth_type ev = ETH_TYPE_LLDP \<or> eth_type ev = ETH_TYPE_IPV6 then Some (Inr (), c, [])
      else
        let c1 = learn c ev;
            out_port = lookup_out_port c1 ev
        in
          if out_port = OFPP_FLOOD \<and> \<not> MST_exist (topo c1) then
            (case compute_and_enforce env c1 of
               None \<Rightarrow> None
             | Some (Inl err, c2, ms) \<Rightarrow> Some (Inl err, c2, ms)
             | Some (Inr _, c2, ms) \<Rightarrow> Some (Inr (), c2, ms @ forward ev out_port))
          else Some (Inr (), c1, forward ev out_port))"

text \<open>
  One iteration of the link loop of \<open>switch_enter_handler\<close>. \<open>randint k\<close> is the value
  of the \<open>k\<close>-th call of \<open>random.randint(1, 10)\<close>; the counter advances only when a
  weight is drawn.
\<close>

definition add_link :: "(nat \<Rightarrow> int) \<Rightarrow> Topo \<times> nat \<Rightarrow> link \<Rightarrow> Topo \<times> nat" where
  "add_link randint tk lk =
     (let t = fst tk; k = snd tk; u = link_src_dpid lk; v = link_dst_dpid lk in
      case edge_lookup t v u of
        Some d \<Rightarrow>
          (add_edge t u v
             \<lparr>src_port = link_src_port lk, dst_port = link_dst_port lk, weight = weight d\<rparr>, k)
      | None \<Rightarrow>
          (add_edge t u v
             \<lparr>src_port = link_src_port lk, dst_port = link_dst_port lk, weight = randint k\<rparr>,
           Suc k))"

definition rebuild_topo :: "discovery \<Rightarrow> (nat \<Rightarrow> int) \<Rightarrow> Topo" where
  "rebuild_topo env randint =
     (let all_switches = get_switch env None;
          t1 = add_nodes_from Topo_init
                 (map (\<lambda>s. (dp_id (sw_dp s), map port_no (sw_ports s))) all_switches);
          t2 = initialize_ufset t1 (int (length all_switches))
      in fst (foldl (add_link randint) (t2, 0) (get_link env)))"

definition switch_enter_handler ::
    "discovery \<Rightarrow> (nat \<Rightarrow> int) \<Rightarrow> controller \<Rightarrow> controller" where
  "switch_enter_handler env randint c =
     c\<lparr>datapaths := map sw_dp (get_switch env None), topo := rebuild_topo env randint\<rparr>"

section \<open>A caller's sequence of disjoint-set operations\<close>

text \<open>
  The calls a client makes on one \<open>UnionFindSet\<close>, run in order; the run stops at the
  first exception.
\<close>

datatype uf_op = Find int | Union int int

fun run_ops :: "UnionFindSet \<Rightarrow> uf_op list \<Rightarrow> ((error + unit) \<times> UnionFindSet) option" where
  "run_ops s [] = Some (Inr (), s)"
| "run_ops s (Find x # ops) =
     Option.bind (find_uf s x) (\<lambda>(r, s1).
       case r of Inl e \<Rightarrow> Some (Inl e, s1) | Inr _ \<Rightarrow> run_ops s1 ops)"
| "run_ops s (Union x y # ops) =
     Option.bind (union_uf s x y) (\<lambda>(r, s1).
       case r of Inl e \<Rightarrow> Some (Inl e, s1) | Inr _ \<Rightarrow> run_ops s1 ops)"

fun op_in_range :: "int \<Rightarrow> uf_op \<Rightarrow> bool" where
  "op_in_range n (Find x) = (1 \<le> x \<and> x \<le> n)"
| "op_in_range n (Union x y) = (1 \<le> x \<and> x \<le> n \<and> 1 \<le> y \<and> y \<le> n)"

fun union_pairs :: "uf_op list \<Rightarrow> (int \<times> int) list" where
  "union_pairs [] = []"
| "union_pairs (Find x # ops) = union_pairs ops"
| "union_pairs (Union x y # ops) = (x, y) # union_pairs ops"

section \<open>The event loop\<close>


section \<open>Concrete scenarios\<close>

text \<open>
  Two switches with one discovered link from switch 1 (port 1) to switch 2 (port 1);
  only switch 1 has a registered datapath.
\<close>

definition half_registered_env :: discovery where
  "half_registered_env =
     \<lparr>switches = [\<lparr>sw_dp = \<lparr>dp_id = 1\<rparr>, sw_ports = [\<lparr>port_no = 1, hw_addr = ''00:00:00:00:00:01''\<rparr>]\<rparr>],
      links = [\<lparr>link_src_dpid = 1, link_src_port = 1, link_dst_dpid = 2, link_dst_port = 1\<rparr>]\<rparr>"

definition half_registered_ctrl :: controller where
  "half_registered_ctrl = switch_enter_handler half_registered_env (\<lambda>k. 5) controller_init"

text \<open>
  A controller that has learned one address at switch 1, and a frame for that address
  arriving at switch 1 on port 2.
\<close>

definition learned_ctrl :: controller where
  "learned_ctrl =
     controller_init\<lparr>mac_to_port := [1 \<mapsto> [''00:00:00:00:00:0a'' \<mapsto> 1]]\<rparr>"

definition known_dst_packet :: packet_in where
  "known_dst_packet =
     \<lparr>pi_datapath = \<lparr>dp_id = 1\<rparr>, pi_in_port = 2, pi_buffer_id = 7, pi_data = ''payload'',
      eth_type = 0x0800, eth_dst = ''00:00:00:00:00:0a'', eth_src = ''00:00:00:00:00:0b''\<rparr>"

text \<open>
  Three switches in a triangle, every link discovered in both directions, every
  drawn weight 5; and a frame for an unknown address arriving at switch 1.
\<close>

definition triangle_env :: discovery where
  "triangle_env =
     \<lparr>switches =
        [\<lparr>sw_dp = \<lparr>dp_id = 1\<rparr>,
          sw_ports = [\<lparr>port_no = 1, hw_addr = ''s1-eth1''\<rparr>, \<lparr>port_no = 2, hw_addr = ''s1-eth2''\<rparr>]\<rparr>,
         \<lparr>sw_dp = \<lparr>dp_id = 2\<rparr>,
          sw_ports = [\<lparr>port_no = 1, hw_addr = ''s2-eth1''\<rparr>, \<lparr>port_no = 2, hw_addr = ''s2-eth2''\<rparr>]\<rparr>,
         \<lparr>sw_dp = \<lparr>dp_id = 3\<rparr>,
          sw_ports = [\<lparr>port_no = 1, hw_addr = ''s3-eth1''\<rparr>, \<lparr>port_no = 2, hw_addr = ''s3-eth2''\<rparr>]\<rparr>],
      links =
        [\<lparr>link_src_dpid = 1, link_src_port = 1, link_dst_dpid = 2, link_dst_port = 1\<rparr>,
         \<lparr>link_src_dpid = 2, link_src_port = 1, link_dst_dpid = 1, link_dst_port = 1\<rparr>,
         \<lparr>link_src_dpid = 1, link_src_port = 2, link_dst_dpid = 3, link_dst_port = 1\<rparr>,
         \<lparr>link_src_dpid = 3, link_src_port = 1, link_dst_dpid = 1, link_dst_port = 2\<rparr>,
         \<lparr>link_src_dpid = 2, link_src_port = 2, link_dst_dpid = 3, link_dst_port = 2\<rparr>,
         \<lparr>link_src_dpid = 3, link_src_port = 2, link_dst_dpid = 2, link_dst_port = 2\<rparr>]\<rparr>"

definition triangle_ctrl :: controller where
  "triangle_ctrl = switch_enter_handler triangle_env (\<lambda>k. 5) controller_init"



text \<open>
  Four switches fully meshed, every link discovered in both directions; the weights
  drawn for the six links are, in discovery order, those of
  \<open>{(1,2):3, (1,3):1, (1,4):4, (2,3):2, (2,4):5, (3,4):6}\<close>.
\<close>

definition mesh_env :: discovery where
  "mesh_env =
     \<lparr>switches =
        map (\<lambda>i. \<lparr>sw_dp = \<lparr>dp_id = i\<rparr>,
                   sw_ports = [\<lparr>port_no = 1, hw_addr = ''eth1''\<rparr>, \<lparr>port_no = 2, hw_addr = ''eth2''\<rparr>,
                               \<lparr>port_no = 3, hw_addr = ''eth3''\<rparr>]\<rparr>) [1, 2, 3, 4],
      links =
        [\<lparr>link_src_dpid = 1, link_src_port = 1, link_dst_dpid = 2, link_dst_port = 1\<rparr>,
         \<lparr>link_src_dpid = 2, link_src_port = 1, link_dst_dpid = 1, link_dst_port = 1\<rparr>,
         \<lparr>link_src_dpid = 1, link_src_port = 2, link_dst_dpid = 3, link_dst_port = 1\<rparr>,
         \<lparr>link_src_dpid = 3, link_src_port = 1, link_dst_dpid = 1, link_dst_port = 2\<rparr>,
         \<lparr>link_src_dpid = 1, link_src_port = 3, link_dst_dpid = 4, link_dst_port = 1\<rparr>,
         \<lparr>link_src_dpid = 4, link_src_port = 1, link_dst_dpid = 1, link_dst_port = 3\<rparr>,
         \<lparr>link_src_dpid = 2, link_src_port = 2, link_dst_dpid = 3, link_dst_port = 2\<rparr>,
         \<lparr>link_src_dpid = 3, link_src_port = 2, link_dst_dpid = 2, link_dst_port = 2\<rparr>,
         \<lparr>link_src_dpid = 2, link_src_port = 3, link_dst_dpid = 4, link_dst_port = 2\<rparr>,
         \<lparr>link_src_dpid = 4, link_src_port = 2, link_dst_dpid = 2, link_dst_port = 3\<rparr>,
         \<lparr>link_src_dpid = 3, link_src_port = 3, link_dst_dpid = 4, link_dst_port = 3\<rparr>,
         \<lparr>link_src_dpid = 4, link_src_port = 3, link_dst_dpid = 3, link_dst_port = 3\<rparr>]\<rparr>"

definition mesh_draw :: "nat \<Rightarrow> int" where
  "mesh_draw k =
     (if k = 0 then 3 else if k = 1 then 1 else if k = 2 then 4 else if k = 3 then 2
      else if k = 4 then 5 else 6)"

definition mesh_topo :: Topo where
  "mesh_topo = rebuild_topo mesh_env mesh_draw"

section \<open>Specification vocabulary\<close>

text \<open>
  \<open>root l i r\<close>: following the parent pointers of \<open>l\<close> from slot \<open>i\<close> ends at the
  self-parented slot \<open>r\<close>; all slots met are in \<open>0 ..< length l\<close>.
\<close>

inductive root :: "int list \<Rightarrow> int \<Rightarrow> int \<Rightarrow> bool" where
  root_self: "0 \<le> i \<Longrightarrow> i < int (length l) \<Longrightarrow> l ! nat i = i \<Longrightarrow> root l i i"
| root_step: "0 \<le> i \<Longrightarrow> i < int (length l) \<Longrightarrow> l ! nat i \<noteq> i \<Longrightarrow>
     root l (l ! nat i) r \<Longrightarrow> root l i r"

text \<open>A parent array is well formed when every slot has a root.\<close>

definition uf_inv :: "int list \<Rightarrow> bool" where
  "uf_inv l = (\<forall>i. 0 \<le> i \<and> i < int (length l) \<longrightarrow> (\<exists>r. root l i r))"

text \<open>Two slots are in the same component when they have the same root.\<close>

definition uf_same :: "int list \<Rightarrow> int \<Rightarrow> int \<Rightarrow> bool" where
  "uf_same l a b = (\<exists>r. root l a r \<and> root l b r)"

text \<open>
  Connectivity by a list of (directed or undirected) endpoint pairs: the reflexive,
  symmetric, transitive closure of the pairs.
\<close>

definition conn :: "(int \<times> int) list \<Rightarrow> (int \<times> int) set" where
  "conn ps = (set ps \<union> (set ps)\<inverse>)\<^sup>*"

text \<open>
  The disjoint-set \<open>s\<close> with slots \<open>0..n\<close> represents the connectivity of the pairs
  \<open>P\<close>: it is well formed, and two ids have the same root exactly when \<open>P\<close> connects them.
\<close>

definition uf_abs :: "int \<Rightarrow> (int \<times> int) list \<Rightarrow> UnionFindSet \<Rightarrow> bool" where
  "uf_abs n P s =
     (int (length (fa s)) = n + 1 \<and> uf_inv (fa s) \<and>
      (\<forall>a b. 0 \<le> a \<and> a \<le> n \<and> 0 \<le> b \<and> b \<le> n \<longrightarrow>
         (uf_same (fa s) a b \<longleftrightarrow> (a, b) \<in> conn P)))"

text \<open>The learned port of a MAC address at a switch, if any.\<close>

definition mac_lookup :: "controller \<Rightarrow> int \<Rightarrow> string \<Rightarrow> int option" where
  "mac_lookup c dpid mac = (case mac_to_port c dpid of None \<Rightarrow> None | Some m \<Rightarrow> m mac)"

text \<open>The port-down requests among the messages sent.\<close>

fun is_port_mod :: "message \<Rightarrow> bool" where
  "is_port_mod (OFPPortMod dp pn hw cfg msk) = True"
| "is_port_mod (OFPFlowMod dp b p m a) = False"
| "is_port_mod (OFPPacketOut dp b i a d) = False"

text \<open>
  The dictionaries of a graph have each key once: the node keys of \<open>adj\<close> are distinct
  and so are the successor keys of every node.
\<close>

definition wf_topo :: "Topo \<Rightarrow> bool" where
  "wf_topo t =
     (distinct (map fst (adj t)) \<and> list_all (\<lambda>un. distinct (map fst (snd un))) (adj t))"

text \<open>Both directed edges between two switches, where present, carry the same weight.\<close>

definition sym_weights :: "Topo \<Rightarrow> bool" where
  "sym_weights t = (\<forall>a b d d'. edge_lookup t a b = Some d \<and> edge_lookup t b a = Some d' \<longrightarrow>
                      weight d = weight d')"

text \<open>The endpoint pair of an edge.\<close>

definition ends :: "edge \<Rightarrow> int \<times> int" where
  "ends e = (fst e, fst (snd e))"

text \<open>
  Kruskal's selection written on connectivity alone: going through the edges in order,
  an edge is kept when the pairs \<open>P\<close> kept so far do not connect its endpoints.
\<close>

fun greedy :: "(int \<times> int) list \<Rightarrow> edge list \<Rightarrow> edge list" where
  "greedy P [] = []"
| "greedy P (e # es) =
     (if ends e \<in> conn P then greedy P es else e # greedy (ends e # P) es)"

text \<open>The connected components of the switches \<open>1..n\<close> under a list of pairs.\<close>

definition components :: "int \<Rightarrow> (int \<times> int) list \<Rightarrow> int set set" where
  "components n ps = (\<lambda>x. conn ps `` {x}) ` {1..n}"

definition in_range :: "int \<Rightarrow> edge list \<Rightarrow> bool" where
  "in_range n es = list_all (\<lambda>e. 1 \<le> fst e \<and> fst e \<le> n \<and> 1 \<le> fst (snd e) \<and> fst (snd e) \<le> n) es"

text \<open>
  A list of edges has no cycle when no edge has its endpoints connected by the other
  edges of the list. It spans a graph when it connects the endpoints of every edge of
  the graph. A spanning forest of a graph is a cycle-free spanning list of its edges.
\<close>

definition acyclic_edges :: "edge list \<Rightarrow> bool" where
  "acyclic_edges F = (\<forall>xs e ys. F = xs @ e # ys \<longrightarrow> ends e \<notin> conn (map ends (xs @ ys)))"

definition spans :: "edge list \<Rightarrow> edge list \<Rightarrow> bool" where
  "spans es F = (\<forall>e\<in>set es. ends e \<in> conn (map ends F))"

definition spanning_forest :: "edge list \<Rightarrow> edge list \<Rightarrow> bool" where
  "spanning_forest es F = (set F \<subseteq> set es \<and> acyclic_edges F \<and> spans es F)"

definition total_weight :: "edge list \<Rightarrow> int" where
  "total_weight F = sum_list (map edge_weight F)"

text \<open>
  \<open>w\<close> is the minimum spanning tree weight of a graph: some spanning forest has that
  weight and none has less.
\<close>

definition is_mst_weight :: "edge list \<Rightarrow> int \<Rightarrow> bool" where
  "is_mst_weight es w =
     ((\<exists>F. spanning_forest es F \<and> total_weight F = w) \<and>
      (\<forall>F. spanning_forest es F \<longrightarrow> w \<le> total_weight F))"

text \<open>The weight of the tree edges \<open>Kruskal\<close> returns, each looked up in the graph.\<close>

definition pair_weight :: "Topo \<Rightarrow> int \<times> int \<Rightarrow> int" where
  "pair_weight t uv = (case edge_lookup t (fst uv) (snd uv) of None \<Rightarrow> 0 | Some d \<Rightarrow> weight d)"

definition tree_weight :: "Topo \<Rightarrow> (int \<times> int) list \<Rightarrow> int" where
  "tree_weight t tree = sum_list (map (pair_weight t) tree)"

text \<open>Pairs added one at a time, each joining two components of those before it.\<close>

fun forest :: "(int \<times> int) list \<Rightarrow> bool" where
  "forest [] = True"
| "forest (a # Q) = (a \<notin> conn Q \<and> forest Q)"

section \<open>Lemmas and theorems\<close>


subsection \<open>Connectivity of pairs\<close>

lemma conn_refl: "(a, a) \<in> conn P"
  by (simp add: conn_def)

lemma conn_sym: "(a, b) \<in> conn P \<Longrightarrow> (b, a) \<in> conn P"
proof -
  have "sym ((set P \<union> (set P)\<inverse>)\<^sup>*)" by (intro sym_rtrancl sym_Un_converse)
  then show "(a, b) \<in> conn P \<Longrightarrow> (b, a) \<in> conn P" unfolding conn_def by (rule symD)
qed

lemma conn_trans: "(a, b) \<in> conn P \<Longrightarrow> (b, c) \<in> conn P \<Longrightarrow> (a, c) \<in> conn P"
  unfolding conn_def by (rule rtrancl_trans)

lemma conn_edge: "(x, y) \<in> set P \<Longrightarrow> (x, y) \<in> conn P"
  unfolding conn_def by (rule r_into_rtrancl) simp

lemma conn_mono: "set P \<subseteq> set Q \<Longrightarrow> conn P \<subseteq> conn Q"
  unfolding conn_def by (rule rtrancl_mono) blast

lemma conn_Nil: "(a, b) \<in> conn [] \<longleftrightarrow> a = b"
  by (simp add: conn_def)

lemma conn_Cons:
  "(a, b) \<in> conn ((x, y) # P) \<longleftrightarrow>
     (a, b) \<in> conn P \<or> ((a, x) \<in> conn P \<and> (y, b) \<in> conn P) \<or>
     ((a, y) \<in> conn P \<and> (x, b) \<in> conn P)"
proof
  assume "(a, b) \<in> conn ((x, y) # P)"
  then have "(a, b) \<in> (set ((x, y) # P) \<union> (set ((x, y) # P))\<inverse>)\<^sup>*" by (simp add: conn_def)
  then show "(a, b) \<in> conn P \<or> ((a, x) \<in> conn P \<and> (y, b) \<in> conn P) \<or>
     ((a, y) \<in> conn P \<and> (x, b) \<in> conn P)"
  proof (induction rule: rtrancl_induct)
    case base
    then show ?case by (simp add: conn_refl)
  next
    case (step c d)
    from step.hyps(2) consider "c = x \<and> d = y" | "c = y \<and> d = x" | "(c, d) \<in> set P" | "(d, c) \<in> set P"
      by auto
    then have cd: "(c = x \<and> d = y) \<or> (c = y \<and> d = x) \<or> (c, d) \<in> conn P"
      using conn_edge conn_sym by metis
    from step.IH cd show ?case
      using conn_trans[of _ _ P] conn_sym[of _ _ P] conn_refl[of _ P] by metis
  qed
next
  have sub: "conn P \<subseteq> conn ((x, y) # P)" by (rule conn_mono) auto
  have e: "(x, y) \<in> conn ((x, y) # P)" by (rule conn_edge) simp
  then have e': "(y, x) \<in> conn ((x, y) # P)" by (rule conn_sym)
  assume "(a, b) \<in> conn P \<or> ((a, x) \<in> conn P \<and> (y, b) \<in> conn P) \<or>
     ((a, y) \<in> conn P \<and> (x, b) \<in> conn P)"
  then show "(a, b) \<in> conn ((x, y) # P)"
    using sub e e' conn_trans[of _ _ "(x, y) # P"] by blast
qed

subsection \<open>Roots and path compression\<close>

lemma list_get_nonneg: "0 \<le> i \<Longrightarrow> i < int (length l) \<Longrightarrow> list_get l i = Inr (l ! nat i)"
  by (simp add: list_get_def py_index_def)

lemma list_set_nonneg: "0 \<le> i \<Longrightarrow> i < int (length l) \<Longrightarrow> list_set l i v = Inr (l[nat i := v])"
  by (simp add: list_set_def py_index_def)

lemma list_get_out: "int (length l) \<le> i \<or> i < - int (length l) \<Longrightarrow> list_get l i = Inl IndexError"
  by (auto simp add: list_get_def py_index_def)

lemma root_range: "root l i r \<Longrightarrow> 0 \<le> i \<and> i < int (length l) \<and> 0 \<le> r \<and> r < int (length l) \<and> l ! nat r = r"
  by (induction rule: root.induct) auto

lemma root_unique: "root l i r \<Longrightarrow> root l i r' \<Longrightarrow> r = r'"
proof (induction arbitrary: r' rule: root.induct)
  case (root_self i l)
  from root_self.prems show ?case
  proof (cases rule: root.cases)
    case root_self
    then show ?thesis by simp
  next
    case root_step
    with root_self.hyps show ?thesis by simp
  qed
next
  case (root_step i l r)
  from root_step.prems show ?case
  proof (cases rule: root.cases)
    case root_self
    with root_step.hyps show ?thesis by simp
  next
    case root_step
    then show ?thesis using root_step.IH by blast
  qed
qed

lemma root_root: "root l i r \<Longrightarrow> root l r r"
  using root_range root_self by blast

lemma nth_upd_int:
  "0 \<le> i \<Longrightarrow> 0 \<le> j \<Longrightarrow> j < int (length l) \<Longrightarrow>
     l[nat i := v] ! nat j = (if i = j then v else l ! nat j)"
proof -
  assume a: "0 \<le> i" "0 \<le> j" "j < int (length l)"
  then have "nat j < length l" by linarith
  moreover from a have "(nat i = nat j) = (i = j)" by linarith
  ultimately show ?thesis by (simp add: nth_list_update)
qed

lemma root_compress:
  assumes "root l i r" and "root l j q"
  shows "root (l[nat i := r]) j q"
  using assms(2) assms(1)
proof (induction rule: root.induct)
  case (root_self j l)
  have ir: "0 \<le> i" using root_range root_self.prems by blast
  have len: "length (l[nat i := r]) = length l" by simp
  show ?case
  proof (cases "j = i")
    case True
    have "root l j j" using root_self.hyps by (rule root.root_self)
    with True root_self.prems have "r = i" using root_unique by blast
    with True root_self.hyps have "l[nat i := r] ! nat j = j" by simp
    then show ?thesis using root_self.hyps len by (intro root.root_self) simp_all
  next
    case False
    with root_self.hyps ir have "l[nat i := r] ! nat j = j" by (simp add: nth_upd_int)
    then show ?thesis using root_self.hyps len by (intro root.root_self) simp_all
  qed
next
  case (root_step j l q)
  have IH: "root (l[nat i := r]) (l ! nat j) q" using root_step.IH root_step.prems by simp
  have ir: "0 \<le> i" using root_range root_step.prems by blast
  have len: "length (l[nat i := r]) = length l" by simp
  show ?case
  proof (cases "j = i")
    case True
    have "root l j q" using root_step.hyps by (rule root.root_step)
    with True root_step.prems have qr: "q = r" using root_unique by blast
    have rr: "0 \<le> r \<and> r < int (length l) \<and> l ! nat r = r" using root_range root_step.prems by blast
    with root_step.hyps True have ri: "r \<noteq> i" by auto
    with rr ir have "l[nat i := r] ! nat r = r" by (simp add: nth_upd_int)
    then have r1: "root (l[nat i := r]) r r" using rr len by (intro root.root_self) simp_all
    have e: "l[nat i := r] ! nat i = r" using root_step.hyps True by simp
    have "root (l[nat i := r]) i r"
    proof (rule root.root_step)
      show "0 \<le> i" by (rule ir)
      show "i < int (length (l[nat i := r]))" using root_step.hyps True by simp
      show "l[nat i := r] ! nat i \<noteq> i" using e ri by simp
      show "root (l[nat i := r]) (l[nat i := r] ! nat i) r" using e r1 by simp
    qed
    with True qr show ?thesis by simp
  next
    case False
    with root_step.hyps ir have e: "l[nat i := r] ! nat j = l ! nat j" by (simp add: nth_upd_int)
    show ?thesis
    proof (rule root.root_step)
      show "0 \<le> j" using root_step.hyps by simp
      show "j < int (length (l[nat i := r]))" using root_step.hyps by simp
      show "l[nat i := r] ! nat j \<noteq> j" using e root_step.hyps by simp
      show "root (l[nat i := r]) (l[nat i := r] ! nat j) q" using e IH by simp
    qed
  qed
qed

lemma root_link:
  assumes "root l j q" and "l ! nat rx = rx" and "l ! nat ry = ry" and "rx \<noteq> ry"
    and "0 \<le> rx" "rx < int (length l)" "0 \<le> ry" "ry < int (length l)"
  shows "root (l[nat ry := rx]) j (if q = ry then rx else q)"
  using assms
proof (induction rule: root.induct)
  case (root_self j l)
  show ?case
  proof (cases "j = ry")
    case True
    have "l[nat ry := rx] ! nat rx = rx" using root_self.prems by (simp add: nth_upd_int)
    then have r1: "root (l[nat ry := rx]) rx rx" using root_self.prems
      by (intro root.root_self) simp_all
    have e: "l[nat ry := rx] ! nat ry = rx" using root_self.prems by (simp add: nth_upd_int)
    have "root (l[nat ry := rx]) ry rx"
    proof (rule root.root_step)
      show "0 \<le> ry" using root_self.prems by simp
      show "ry < int (length (l[nat ry := rx]))" using root_self.prems by simp
      show "l[nat ry := rx] ! nat ry \<noteq> ry" using e root_self.prems by simp
      show "root (l[nat ry := rx]) (l[nat ry := rx] ! nat ry) rx" using e r1 by simp
    qed
    with True show ?thesis by simp
  next
    case False
    with root_self have "l[nat ry := rx] ! nat j = j" by (simp add: nth_upd_int)
    then have "root (l[nat ry := rx]) j j" using root_self.hyps by (intro root.root_self) simp_all
    with False show ?thesis by simp
  qed
next
  case (root_step j l q)
  have "j \<noteq> ry" using root_step.hyps root_step.prems by auto
  with root_step.hyps root_step.prems have e: "l[nat ry := rx] ! nat j = l ! nat j"
    by (simp add: nth_upd_int)
  have IH: "root (l[nat ry := rx]) (l ! nat j) (if q = ry then rx else q)"
    using root_step.IH root_step.prems by simp
  show ?case
  proof (rule root.root_step)
    show "0 \<le> j" using root_step.hyps by simp
    show "j < int (length (l[nat ry := rx]))" using root_step.hyps by simp
    show "l[nat ry := rx] ! nat j \<noteq> j" using e root_step.hyps by simp
    show "root (l[nat ry := rx]) (l[nat ry := rx] ! nat j) (if q = ry then rx else q)"
      using e IH by simp
  qed
qed

lemma find_uf_root_aux:
  assumes "root l i r" and "fa s = l"
  shows "\<exists>s'. find_uf s i = Some (Inr r, s') \<and> length (fa s') = length (fa s) \<and>
           uf_size s' = uf_size s \<and> (\<forall>j q. root (fa s) j q \<longrightarrow> root (fa s') j q)"
  using assms
proof (induction rule: root.induct)
  case (root_self i l)
  then have "list_get (fa s) i = Inr i" by (simp add: list_get_nonneg)
  then have "find_uf s i = Some (Inr i, s)" by (subst find_uf.simps) simp
  then show ?case by simp
next
  case (root_step i l r)
  have g: "list_get (fa s) i = Inr (l ! nat i)" using root_step.hyps root_step.prems
    by (simp add: list_get_nonneg)
  from root_step.IH root_step.prems obtain s1 where
    f1: "find_uf s (l ! nat i) = Some (Inr r, s1)" and
    len1: "length (fa s1) = length (fa s)" and
    sz1: "uf_size s1 = uf_size s" and
    pres1: "\<forall>j q. root (fa s) j q \<longrightarrow> root (fa s1) j q" by blast
  have ri: "root (fa s) i r" using root_step.hyps root_step.prems root.root_step by simp
  then have ri1: "root (fa s1) i r" using pres1 by simp
  have st: "list_set (fa s1) i r = Inr ((fa s1)[nat i := r])"
    using root_step.hyps root_step.prems len1 by (simp add: list_set_nonneg)
  have gt: "list_get ((fa s1)[nat i := r]) i = Inr r"
    using root_step.hyps root_step.prems len1 by (simp add: list_get_nonneg)
  have "find_uf s i = Some (Inr r, s1\<lparr>fa := (fa s1)[nat i := r]\<rparr>)"
    using root_step.hyps by (subst find_uf.simps) (simp add: g f1 st gt)
  moreover have "\<forall>j q. root (fa s) j q \<longrightarrow> root ((fa s1)[nat i := r]) j q"
    using pres1 ri1 root_compress by blast
  ultimately show ?case using len1 sz1 by simp
qed

lemma find_uf_root:
  assumes "root (fa s) i r"
  shows "\<exists>s'. find_uf s i = Some (Inr r, s') \<and> length (fa s') = length (fa s) \<and>
           uf_size s' = uf_size s \<and> (\<forall>j q. root (fa s) j q \<longrightarrow> root (fa s') j q)"
  using find_uf_root_aux[OF assms] by simp

lemma union_uf_root:
  assumes "root (fa s) x rx" and "root (fa s) y ry"
  shows "\<exists>s'. union_uf s x y = Some (Inr (), s') \<and> length (fa s') = length (fa s) \<and>
           uf_size s' = uf_size s \<and>
           (\<forall>j q. root (fa s) j q \<longrightarrow> root (fa s') j (if q = ry then rx else q))"
proof -
  from find_uf_root[OF assms(1)] obtain s1 where
    f1: "find_uf s x = Some (Inr rx, s1)" and len1: "length (fa s1) = length (fa s)" and
    sz1: "uf_size s1 = uf_size s" and
    pres1: "\<forall>j q. root (fa s) j q \<longrightarrow> root (fa s1) j q" by blast
  have "root (fa s1) y ry" using pres1 assms(2) by simp
  from find_uf_root[OF this] obtain s2 where
    f2: "find_uf s1 y = Some (Inr ry, s2)" and len2: "length (fa s2) = length (fa s1)" and
    sz2: "uf_size s2 = uf_size s1" and
    pres2: "\<forall>j q. root (fa s1) j q \<longrightarrow> root (fa s2) j q" by blast
  have pres: "\<forall>j q. root (fa s) j q \<longrightarrow> root (fa s2) j q" using pres1 pres2 by simp
  show ?thesis
  proof (cases "rx = ry")
    case True
    then have "union_uf s x y = Some (Inr (), s2)" by (simp add: union_uf_def f1 f2)
    with True pres len1 len2 sz1 sz2 show ?thesis by simp
  next
    case False
    have rx: "0 \<le> rx \<and> rx < int (length (fa s2)) \<and> fa s2 ! nat rx = rx"
      using root_range pres assms(1) by blast
    have ry: "0 \<le> ry \<and> ry < int (length (fa s2)) \<and> fa s2 ! nat ry = ry"
      using root_range pres assms(2) by blast
    then have st: "list_set (fa s2) ry rx = Inr ((fa s2)[nat ry := rx])"
      by (simp add: list_set_nonneg)
    have u: "union_uf s x y = Some (Inr (), s2\<lparr>fa := (fa s2)[nat ry := rx]\<rparr>)"
      using False by (simp add: union_uf_def f1 f2 st)
    have "\<forall>j q. root (fa s) j q \<longrightarrow> root ((fa s2)[nat ry := rx]) j (if q = ry then rx else q)"
    proof (intro allI impI)
      fix j q assume "root (fa s) j q"
      then have "root (fa s2) j q" using pres by simp
      then show "root ((fa s2)[nat ry := rx]) j (if q = ry then rx else q)"
        using rx ry False by (intro root_link) simp_all
    qed
    with u len1 len2 sz1 sz2 show ?thesis by simp
  qed
qed

subsection \<open>The disjoint-set represents connectivity\<close>

lemma roots_pres:
  assumes "uf_inv l" and "length l' = length l"
    and "\<forall>j q. root l j q \<longrightarrow> root l' j (f q)"
  shows "uf_inv l'" and "root l' j q' \<longleftrightarrow> (\<exists>q. root l j q \<and> q' = f q)"
proof -
  show "uf_inv l'" unfolding uf_inv_def
  proof (intro allI impI)
    fix i assume "0 \<le> i \<and> i < int (length l')"
    with assms(1,2) obtain q where "root l i q" unfolding uf_inv_def by auto
    with assms(3) show "\<exists>r. root l' i r" by blast
  qed
  show "root l' j q' \<longleftrightarrow> (\<exists>q. root l j q \<and> q' = f q)"
  proof
    assume a: "root l' j q'"
    then have "0 \<le> j \<and> j < int (length l)" using root_range assms(2) by fastforce
    with assms(1) obtain q where q: "root l j q" unfolding uf_inv_def by auto
    with assms(3) have "root l' j (f q)" by blast
    with a have "q' = f q" by (rule root_unique)
    with q show "\<exists>q. root l j q \<and> q' = f q" by blast
  next
    assume "\<exists>q. root l j q \<and> q' = f q"
    with assms(3) show "root l' j q'" by blast
  qed
qed

lemma uf_abs_cong: "set P = set Q \<Longrightarrow> uf_abs n P s = uf_abs n Q s"
  by (simp add: uf_abs_def conn_def)

lemma uf_abs_init:
  assumes "0 \<le> n"
  shows "uf_abs n [] (UnionFindSet_init n)"
proof -
  let ?l = "[0..n]"
  have len: "int (length ?l) = n + 1" using assms by simp
  have self: "root ?l i i" if "0 \<le> i" "i \<le> n" for i
  proof (rule root.root_self)
    show "0 \<le> i" by fact
    show "i < int (length ?l)" using that len by simp
    have "?l ! nat i = 0 + int (nat i)" using that by (intro nth_upto) simp
    then show "?l ! nat i = i" using that by simp
  qed
  have inv: "uf_inv ?l" unfolding uf_inv_def using self len by fastforce
  have same: "uf_same ?l a b \<longleftrightarrow> a = b" if "0 \<le> a" "a \<le> n" "0 \<le> b" "b \<le> n" for a b
  proof
    assume "uf_same ?l a b"
    then obtain r where r: "root ?l a r" "root ?l b r" unfolding uf_same_def by blast
    have "r = a" using r(1) self[OF that(1,2)] by (rule root_unique)
    moreover have "r = b" using r(2) self[OF that(3,4)] by (rule root_unique)
    ultimately show "a = b" by simp
  next
    assume "a = b"
    then show "uf_same ?l a b" unfolding uf_same_def using self[OF that(1,2)] by blast
  qed
  show ?thesis unfolding uf_abs_def UnionFindSet_init_def
    using len inv same by (simp add: conn_Nil)
qed

lemma uf_abs_find:
  assumes "uf_abs n P s" and "0 \<le> x" and "x \<le> n"
  shows "\<exists>r s'. find_uf s x = Some (Inr r, s') \<and> root (fa s) x r \<and> uf_abs n P s' \<and>
           uf_size s' = uf_size s \<and> (\<forall>j q. root (fa s') j q \<longleftrightarrow> root (fa s) j q)"
proof -
  from assms have inv: "uf_inv (fa s)" and len: "int (length (fa s)) = n + 1"
    by (simp_all add: uf_abs_def)
  from inv len assms(2,3) obtain r where r: "root (fa s) x r" unfolding uf_inv_def by fastforce
  from find_uf_root[OF r] obtain s' where
    f: "find_uf s x = Some (Inr r, s')" and len': "length (fa s') = length (fa s)" and
    sz: "uf_size s' = uf_size s" and
    pres: "\<forall>j q. root (fa s) j q \<longrightarrow> root (fa s') j (id q)" by auto
  have inv': "uf_inv (fa s')" using inv len' pres by (rule roots_pres(1))
  have iff: "root (fa s') j q \<longleftrightarrow> root (fa s) j q" for j q
    using roots_pres(2)[OF inv len' pres, of j q] by simp
  have "uf_same (fa s') a b = uf_same (fa s) a b" for a b by (simp add: uf_same_def iff)
  with assms(1) inv' len' have "uf_abs n P s'" by (simp add: uf_abs_def)
  with f r sz iff show ?thesis by blast
qed

lemma uf_abs_union:
  assumes "uf_abs n P s" and "0 \<le> x" "x \<le> n" "0 \<le> y" "y \<le> n"
  shows "\<exists>s'. union_uf s x y = Some (Inr (), s') \<and> uf_abs n ((x, y) # P) s' \<and>
           uf_size s' = uf_size s"
proof -
  from assms have inv: "uf_inv (fa s)" and len: "int (length (fa s)) = n + 1"
    and rel: "\<And>a b. 0 \<le> a \<Longrightarrow> a \<le> n \<Longrightarrow> 0 \<le> b \<Longrightarrow> b \<le> n \<Longrightarrow>
                uf_same (fa s) a b \<longleftrightarrow> (a, b) \<in> conn P"
    by (simp_all add: uf_abs_def)
  from inv len assms obtain rx where rx: "root (fa s) x rx" unfolding uf_inv_def by fastforce
  from inv len assms obtain ry where ry: "root (fa s) y ry" unfolding uf_inv_def by fastforce
  let ?f = "\<lambda>q. if q = ry then rx else q"
  from union_uf_root[OF rx ry] obtain s' where
    u: "union_uf s x y = Some (Inr (), s')" and len': "length (fa s') = length (fa s)" and
    sz: "uf_size s' = uf_size s" and
    pres: "\<forall>j q. root (fa s) j q \<longrightarrow> root (fa s') j (?f q)" by blast
  have inv': "uf_inv (fa s')" using inv len' pres by (rule roots_pres(1))
  have iff: "root (fa s') j q' \<longleftrightarrow> (\<exists>q. root (fa s) j q \<and> q' = ?f q)" for j q'
    using roots_pres(2)[OF inv len' pres, of j q'] by simp
  have same': "uf_same (fa s') a b \<longleftrightarrow> (a, b) \<in> conn ((x, y) # P)"
    if ab: "0 \<le> a" "a \<le> n" "0 \<le> b" "b \<le> n" for a b
  proof -
    from inv len ab obtain ra where ra: "root (fa s) a ra" unfolding uf_inv_def by fastforce
    from inv len ab obtain rb where rb: "root (fa s) b rb" unfolding uf_inv_def by fastforce
    have sm: "uf_same (fa s) c d \<longleftrightarrow> rc = rd" if "root (fa s) c rc" "root (fa s) d rd" for c d rc rd
      using that root_unique unfolding uf_same_def by blast
    have "uf_same (fa s') a b \<longleftrightarrow> ?f ra = ?f rb"
    proof
      assume "uf_same (fa s') a b"
      then obtain r where "root (fa s') a r" "root (fa s') b r" unfolding uf_same_def by blast
      then obtain qa qb where "root (fa s) a qa" "r = ?f qa" "root (fa s) b qb" "r = ?f qb"
        unfolding iff by blast
      with ra rb show "?f ra = ?f rb" using root_unique by metis
    next
      assume e: "?f ra = ?f rb"
      have "root (fa s') a (?f ra)" "root (fa s') b (?f rb)" using ra rb pres by blast+
      with e show "uf_same (fa s') a b" unfolding uf_same_def by metis
    qed
    also have "\<dots> \<longleftrightarrow> ra = rb \<or> (ra = rx \<and> rb = ry) \<or> (ra = ry \<and> rb = rx)" by auto
    also have "\<dots> \<longleftrightarrow> uf_same (fa s) a b \<or> (uf_same (fa s) a x \<and> uf_same (fa s) y b) \<or>
                 (uf_same (fa s) a y \<and> uf_same (fa s) x b)"
      using sm[OF ra rb] sm[OF ra rx] sm[OF ry rb] sm[OF ra ry] sm[OF rx rb] by auto
    also have "\<dots> \<longleftrightarrow> (a, b) \<in> conn ((x, y) # P)"
      using rel ab assms(2-5) by (simp add: conn_Cons)
    finally show ?thesis .
  qed
  have "uf_abs n ((x, y) # P) s'" unfolding uf_abs_def using inv' len len' same' by simp
  with u sz show ?thesis by blast
qed

lemma uf_abs_run_ops:
  assumes "uf_abs n P s" and "\<forall>op\<in>set ops. op_in_range n op"
  shows "\<exists>s'. run_ops s ops = Some (Inr (), s') \<and> uf_abs n (union_pairs ops @ P) s' \<and>
           uf_size s' = uf_size s"
  using assms
proof (induction ops arbitrary: s P)
  case Nil
  then show ?case by simp
next
  case (Cons op ops)
  show ?case
  proof (cases op)
    case (Find x)
    with Cons.prems have x: "0 \<le> x" "x \<le> n" by auto
    from uf_abs_find[OF Cons.prems(1) x] obtain r s1 where
      f: "find_uf s x = Some (Inr r, s1)" and a1: "uf_abs n P s1" and sz: "uf_size s1 = uf_size s"
      by blast
    from Cons.IH[OF a1] Cons.prems(2) obtain s' where
      "run_ops s1 ops = Some (Inr (), s')" "uf_abs n (union_pairs ops @ P) s'"
      "uf_size s' = uf_size s1" by auto
    with f sz Find show ?thesis by simp
  next
    case (Union x y)
    with Cons.prems have xy: "0 \<le> x" "x \<le> n" "0 \<le> y" "y \<le> n" by auto
    from uf_abs_union[OF Cons.prems(1) xy] obtain s1 where
      u: "union_uf s x y = Some (Inr (), s1)" and a1: "uf_abs n ((x, y) # P) s1"
      and sz: "uf_size s1 = uf_size s" by blast
    from Cons.IH[OF a1] Cons.prems(2) obtain s' where
      r: "run_ops s1 ops = Some (Inr (), s')" and a': "uf_abs n (union_pairs ops @ (x, y) # P) s'"
      and sz': "uf_size s' = uf_size s1" by auto
    have "uf_abs n (union_pairs (op # ops) @ P) s' = uf_abs n (union_pairs ops @ (x, y) # P) s'"
      unfolding Union by (rule uf_abs_cong) auto
    with a' r u sz sz' Union show ?thesis by simp
  qed
qed

lemma find_uf_out:
  assumes "int (length (fa s)) \<le> x \<or> x < - int (length (fa s))"
  shows "find_uf s x = Some (Inl IndexError, s)"
  using list_get_out[OF assms] by (subst find_uf.simps) simp

lemma parent_range:
  assumes "uf_inv l" and "0 \<le> k" and "k < int (length l)"
  shows "0 \<le> l ! nat k \<and> l ! nat k < int (length l)"
proof -
  from assms obtain r where "root l k r" unfolding uf_inv_def by blast
  then show ?thesis
  proof (cases rule: root.cases)
    case root_self
    then show ?thesis by simp
  next
    case root_step
    then show ?thesis using root_range by blast
  qed
qed

lemma find_uf_neg:
  assumes "uf_inv (fa s)" and "x < 0" and "- int (length (fa s)) \<le> x"
  shows "\<exists>r s'. find_uf s x = Some (Inr r, s') \<and> length (fa s') = length (fa s)"
proof -
  let ?k = "int (length (fa s)) + x"
  let ?p = "fa s ! nat ?k"
  have k: "0 \<le> ?k" "?k < int (length (fa s))" using assms(2,3) by simp_all
  have g: "list_get (fa s) x = Inr ?p" using assms(2,3) by (simp add: list_get_def py_index_def)
  have p: "0 \<le> ?p \<and> ?p < int (length (fa s))" using parent_range[OF assms(1) k] .
  then have px: "?p \<noteq> x" using assms(2) by simp
  from p assms(1) obtain r where "root (fa s) ?p r" unfolding uf_inv_def by blast
  from find_uf_root[OF this] obtain s1 where
    f1: "find_uf s ?p = Some (Inr r, s1)" and len1: "length (fa s1) = length (fa s)" by blast
  have st: "list_set (fa s1) x r = Inr ((fa s1)[nat ?k := r])"
    using assms(2,3) len1 by (simp add: list_set_def py_index_def)
  have gt: "list_get ((fa s1)[nat ?k := r]) x = Inr r"
    using assms(2,3) len1 by (simp add: list_get_def py_index_def)
  have "find_uf s x = Some (Inr r, s1\<lparr>fa := (fa s1)[nat ?k := r]\<rparr>)"
    using px by (subst find_uf.simps) (simp add: g f1 st gt)
  with len1 show ?thesis by simp
qed

lemma find_uf_total:
  assumes "uf_inv (fa s)"
  shows "\<exists>r s'. find_uf s y = Some (r, s') \<and> length (fa s') = length (fa s) \<and>
           (r = Inl IndexError \<or> (\<exists>v. r = Inr v))"
proof -
  consider "int (length (fa s)) \<le> y \<or> y < - int (length (fa s))"
    | "0 \<le> y \<and> y < int (length (fa s))" | "y < 0 \<and> - int (length (fa s)) \<le> y"
    by linarith
  then show ?thesis
  proof cases
    case 1
    then show ?thesis using find_uf_out by blast
  next
    case 2
    with assms obtain r where "root (fa s) y r" unfolding uf_inv_def by blast
    from find_uf_root[OF this] show ?thesis by blast
  next
    case 3
    with find_uf_neg[OF assms, of y] show ?thesis by blast
  qed
qed

lemma union_uf_out:
  assumes "uf_inv (fa s)" and "int (length (fa s)) \<le> x \<or> x < - int (length (fa s))"
  shows "union_uf s x y = Some (Inl IndexError, s)"
    and "\<exists>s'. union_uf s y x = Some (Inl IndexError, s')"
proof -
  show "union_uf s x y = Some (Inl IndexError, s)"
    by (simp add: union_uf_def find_uf_out[OF assms(2)])
  from find_uf_total[OF assms(1), of y] obtain r s1 where
    f: "find_uf s y = Some (r, s1)" and len: "length (fa s1) = length (fa s)" and
    r: "r = Inl IndexError \<or> (\<exists>v. r = Inr v)" by blast
  have f2: "find_uf s1 x = Some (Inl IndexError, s1)" using assms(2) len by (intro find_uf_out) simp
  from r show "\<exists>s'. union_uf s y x = Some (Inl IndexError, s')"
  proof
    assume "r = Inl IndexError"
    with f show ?thesis by (simp add: union_uf_def)
  next
    assume "\<exists>v. r = Inr v"
    with f f2 show ?thesis by (auto simp add: union_uf_def)
  qed
qed

text \<open>
  C8 (as amended). For a disjoint-set initialised with count \<open>n\<close> and then used by any
  sequence of find and union calls on ids in \<open>1..n\<close>, a call of find or union with an
  id greater than \<open>n\<close> or less than \<open>-(n+1)\<close> raises IndexError; for find the
  structure is left as it was. Every other id, so also 0 and the negative ids down to
  \<open>-(n+1)\<close>, is accepted by find, which returns a representative.
\<close>

theorem out_of_range_raises:
  assumes "0 \<le> n" and "\<forall>op\<in>set ops. op_in_range n op" and "n < x \<or> x < - (n + 1)"
  shows "\<exists>s. run_ops (UnionFindSet_init n) ops = Some (Inr (), s) \<and>
           find_uf s x = Some (Inl IndexError, s) \<and>
           (\<forall>y. (\<exists>s'. union_uf s x y = Some (Inl IndexError, s')) \<and>
                (\<exists>s'. union_uf s y x = Some (Inl IndexError, s'))) \<and>
           (\<forall>y. - (n + 1) \<le> y \<and> y \<le> n \<longrightarrow> (\<exists>r s'. find_uf s y = Some (Inr r, s')))"
proof -
  from uf_abs_run_ops[OF uf_abs_init[OF assms(1)] assms(2)] obtain s where
    r: "run_ops (UnionFindSet_init n) ops = Some (Inr (), s)" and a: "uf_abs n (union_pairs ops @ []) s"
    by blast
  from a have inv: "uf_inv (fa s)" and len: "int (length (fa s)) = n + 1" by (simp_all add: uf_abs_def)
  from assms(3) len have out: "int (length (fa s)) \<le> x \<or> x < - int (length (fa s))" by linarith
  have acc: "\<exists>r s'. find_uf s y = Some (Inr r, s')" if "- (n + 1) \<le> y \<and> y \<le> n" for y
  proof (cases "0 \<le> y")
    case True
    with that len inv obtain q where "root (fa s) y q" unfolding uf_inv_def by fastforce
    from find_uf_root[OF this] show ?thesis by blast
  next
    case False
    with that len have "y < 0" "- int (length (fa s)) \<le> y" by simp_all
    from find_uf_neg[OF inv this] show ?thesis by blast
  qed
  show ?thesis using r find_uf_out[OF out] union_uf_out[OF inv out] acc by blast
qed

theorem out_of_range_raises_witness:
  "\<exists>s. run_ops (UnionFindSet_init 3) [Union 1 2, Find 2, Union 3 2] = Some (Inr (), s) \<and>
       find_uf s 4 = Some (Inl IndexError, s) \<and>
       (\<forall>y. (\<exists>s'. union_uf s 4 y = Some (Inl IndexError, s')) \<and>
            (\<exists>s'. union_uf s y 4 = Some (Inl IndexError, s'))) \<and>
       (\<forall>y. - 4 \<le> y \<and> y \<le> 3 \<longrightarrow> (\<exists>r s'. find_uf s y = Some (Inr r, s')))"
  using out_of_range_raises[of 3 "[Union 1 2, Find 2, Union 3 2]" 4] by simp

text \<open>
  C8 as stated fails: the ids \<open>0\<close> and \<open>-1\<close> are outside \<open>1..3\<close>, yet find and union
  on a disjoint-set of count 3 return normally (slot 0 exists, and a negative index
  counts from the end of the list).
\<close>

theorem out_of_range_counterexample:
  "find_uf (UnionFindSet_init 3) 0 = Some (Inr 0, UnionFindSet_init 3) \<and>
   find_uf (UnionFindSet_init 3) (- 1) = Some (Inr 3, UnionFindSet_init 3) \<and>
   union_uf (UnionFindSet_init 3) 0 (- 1) = Some (Inr (), \<lparr>fa = [0, 1, 2, 0], uf_size = 3\<rparr>)"
  by (simp add: union_uf_def find_uf.simps UnionFindSet_init_def list_get_def list_set_def
      py_index_def upto.simps)

subsection \<open>Link enforcement\<close>

lemmas topo_defs =
  Topo_init_def add_nodes_from_def add_node_def has_node_def initialize_ufset_def
  UnionFindSet_init_def add_link_def edge_lookup_def add_edge_def ensure_node_def edges_def
  rebuild_topo_def get_switch_def get_link_def upto.simps

lemmas ctrl_defs =
  controller_init_def switch_enter_handler_def find_datapath_by_id_def send_port_mod_def
  block_links_def add_flow_def forward_def learn_def lookup_out_port_def
  OFPP_FLOOD_def OFPP_CONTROLLER_def OFPCML_MAX_def OFPCML_NO_BUFFER_def OFP_NO_BUFFER_def
  OFPPC_PORT_DOWN_def OFPPC_NO_RECV_def OFPPC_NO_FWD_def OFPPC_NO_PACKET_IN_def
  ETH_TYPE_LLDP_def ETH_TYPE_IPV6_def

lemma block_links_loop_skip:
  assumes "find_datapath_by_id c (fst e) = None \<or> find_datapath_by_id c (fst (snd e)) = None"
  shows "block_links_loop env c excepts (e # es) = block_links_loop env c excepts es"
  using assms by (auto split: option.splits)

lemma block_links_loop_append:
  "block_links_loop env c excepts (es1 @ es2) =
     (case block_links_loop env c excepts es1 of
        (Inl err, ms) \<Rightarrow> (Inl err, ms)
      | (Inr u, ms) \<Rightarrow>
          (case block_links_loop env c excepts es2 of (r, ms2) \<Rightarrow> (r, ms @ ms2)))"
proof (induction es1)
  case Nil
  show ?case by (simp split: prod.splits)
next
  case (Cons e es1)
  show ?case
    by (simp add: Cons.IH split: prod.splits sum.splits option.splits)
qed

text \<open>
  C2 (as amended). A discovered link with an endpoint whose datapath is not registered
  is passed over as a whole: \<open>block_links\<close> sends nothing for either of its ports,
  raises nothing for it, and treats the remaining links exactly as if that link were not
  in the topology.
\<close>

theorem block_links_skips_unregistered:
  assumes "edges (topo c) = es1 @ e # es2"
    and "find_datapath_by_id c (fst e) = None \<or> find_datapath_by_id c (fst (snd e)) = None"
  shows "block_links env c excepts = block_links_loop env c excepts (es1 @ es2) \<and>
         block_links_loop env c excepts [e] = (Inr (), [])"
proof -
  have one: "block_links_loop env c excepts [e] = (Inr (), [])"
    using block_links_loop_skip[OF assms(2), of env excepts "[]"] by simp
  have sk: "block_links_loop env c excepts (e # es2) = block_links_loop env c excepts es2"
    by (rule block_links_loop_skip[OF assms(2)])
  have "block_links_loop env c excepts (es1 @ e # es2) = block_links_loop env c excepts (es1 @ es2)"
    by (simp only: block_links_loop_append[of env c excepts es1 "e # es2"]
        block_links_loop_append[of env c excepts es1 es2] sk)
  with one assms(1) show ?thesis by (simp add: block_links_def)
qed

theorem block_links_skips_unregistered_witness:
  "block_links half_registered_env half_registered_ctrl [] =
     block_links_loop half_registered_env half_registered_ctrl [] ([] @ []) \<and>
   block_links_loop half_registered_env half_registered_ctrl []
     [(1, 2, \<lparr>src_port = 1, dst_port = 1, weight = 5\<rparr>)] = (Inr (), [])"
  using block_links_skips_unregistered[of half_registered_ctrl "[]"
      "(1, 2, \<lparr>src_port = 1, dst_port = 1, weight = 5\<rparr>)" "[]" half_registered_env "[]"]
  by (simp add: half_registered_ctrl_def half_registered_env_def topo_defs ctrl_defs)

text \<open>
  C2 as stated fails: switch 1 is registered and its port 1 is known, switch 2 is not
  registered, the link 1 \<rightarrow> 2 is not a tree edge, and yet no port-down request is
  sent for port 1 of switch 1.
\<close>

theorem block_links_one_sided_counterexample:
  "find_datapath_by_id half_registered_ctrl 1 = Some \<lparr>dp_id = 1\<rparr> \<and>
   find_datapath_by_id half_registered_ctrl 2 = None \<and>
   edges (topo half_registered_ctrl) = [(1, 2, \<lparr>src_port = 1, dst_port = 1, weight = 5\<rparr>)] \<and>
   send_port_mod half_registered_env \<lparr>dp_id = 1\<rparr> 1 OFPPC_PORT_DOWN =
     Inr [OFPPortMod \<lparr>dp_id = 1\<rparr> 1 ''00:00:00:00:00:01'' 1 101] \<and>
   block_links half_registered_env half_registered_ctrl [] = (Inr (), [])"
  by (simp add: half_registered_ctrl_def half_registered_env_def topo_defs ctrl_defs)

subsection \<open>The MAC-learning table\<close>

lemma compute_and_enforce_frame:
  assumes "compute_and_enforce env c = Some (r, c', ms)"
  shows "mac_to_port c' = mac_to_port c \<and> datapaths c' = datapaths c"
  using assms unfolding compute_and_enforce_def
  by (auto split: Option.bind_splits sum.splits prod.splits)

lemma mac_to_port_packet_in:
  assumes "packet_in_handler env c ev = Some (r, c', ms)"
  shows "mac_to_port c' =
           (if eth_type ev = ETH_TYPE_LLDP \<or> eth_type ev = ETH_TYPE_IPV6 then mac_to_port c
            else mac_to_port (learn c ev))"
proof (cases "eth_type ev = ETH_TYPE_LLDP \<or> eth_type ev = ETH_TYPE_IPV6")
  case True
  with assms show ?thesis by (simp add: packet_in_handler_def)
next
  case False
  show ?thesis
  proof (cases "lookup_out_port (learn c ev) ev = OFPP_FLOOD \<and> \<not> MST_exist (topo (learn c ev))")
    case True
    with False assms obtain r2 ms2 where "compute_and_enforce env (learn c ev) = Some (r2, c', ms2)"
      unfolding packet_in_handler_def Let_def
      by (simp split: option.splits prod.splits sum.splits)
    from compute_and_enforce_frame[OF this] False show ?thesis by simp
  next
    case nf: False
    with False assms show ?thesis unfolding packet_in_handler_def Let_def by auto
  qed
qed

lemma mac_lookup_packet_in:
  assumes "packet_in_handler env c ev = Some (r, c', ms)"
  shows "mac_lookup c' dpid mac =
           (if eth_type ev \<noteq> ETH_TYPE_LLDP \<and> eth_type ev \<noteq> ETH_TYPE_IPV6 \<and>
               dpid = dp_id (pi_datapath ev) \<and> mac = eth_src ev
            then Some (pi_in_port ev) else mac_lookup c dpid mac)"
  unfolding mac_lookup_def mac_to_port_packet_in[OF assms] learn_def
  by (simp split: option.splits)

text \<open>
  C9. A topology rebuild (\<open>switch_enter_handler\<close>) leaves the MAC-learning table as
  it was. A packet-in only adds or overwrites the entry of its own switch and source
  MAC (and none at all for a filtered ethertype), so a learned entry is never removed:
  after the handler every other entry has the port it had.
\<close>

theorem mac_table_kept:
  "mac_to_port (switch_enter_handler env randint c) = mac_to_port c \<and>
   (\<forall>ev r c' ms dpid mac.
      packet_in_handler env c ev = Some (r, c', ms) \<longrightarrow>
        mac_lookup c' dpid mac =
          (if eth_type ev \<noteq> ETH_TYPE_LLDP \<and> eth_type ev \<noteq> ETH_TYPE_IPV6 \<and>
              dpid = dp_id (pi_datapath ev) \<and> mac = eth_src ev
           then Some (pi_in_port ev) else mac_lookup c dpid mac) \<and>
        (mac_lookup c dpid mac \<noteq> None \<longrightarrow> mac_lookup c' dpid mac \<noteq> None))"
proof -
  have "mac_to_port (switch_enter_handler env randint c) = mac_to_port c"
    by (simp add: switch_enter_handler_def)
  moreover have "mac_lookup c dpid mac \<noteq> None \<longrightarrow> mac_lookup c' dpid mac \<noteq> None"
    if "packet_in_handler env c ev = Some (r, c', ms)" for ev r c' ms dpid mac
    using mac_lookup_packet_in[OF that, of dpid mac] by simp
  ultimately show ?thesis using mac_lookup_packet_in by blast
qed

theorem mac_table_kept_witness:
  "packet_in_handler half_registered_env learned_ctrl known_dst_packet =
     Some (Inr (), learn learned_ctrl known_dst_packet, forward known_dst_packet 1) \<and>
   mac_lookup learned_ctrl 1 ''00:00:00:00:00:0a'' = Some 1 \<and>
   mac_lookup (learn learned_ctrl known_dst_packet) 1 ''00:00:00:00:00:0a'' = Some 1 \<and>
   mac_lookup (learn learned_ctrl known_dst_packet) 1 ''00:00:00:00:00:0b'' = Some 2"
proof -
  have h: "packet_in_handler half_registered_env learned_ctrl known_dst_packet =
     Some (Inr (), learn learned_ctrl known_dst_packet, forward known_dst_packet 1)"
    by (simp add: packet_in_handler_def learned_ctrl_def known_dst_packet_def
        lookup_out_port_def learn_def ETH_TYPE_LLDP_def ETH_TYPE_IPV6_def OFPP_FLOOD_def)
  have l: "mac_lookup learned_ctrl 1 ''00:00:00:00:00:0a'' = Some 1"
    by (simp add: mac_lookup_def learned_ctrl_def)
  note k = mac_table_kept[of half_registered_env "\<lambda>k. 5" learned_ctrl,
      THEN conjunct2, rule_format, OF h]
  have "mac_lookup (learn learned_ctrl known_dst_packet) 1 ''00:00:00:00:00:0a'' = Some 1"
    using k[of 1 "''00:00:00:00:00:0a''"] l by (simp add: known_dst_packet_def)
  moreover have "mac_lookup (learn learned_ctrl known_dst_packet) 1 ''00:00:00:00:00:0b'' = Some 2"
    using k[of 1 "''00:00:00:00:00:0b''"]
    by (simp add: known_dst_packet_def ETH_TYPE_LLDP_def ETH_TYPE_IPV6_def)
  ultimately show ?thesis using h l by simp
qed

subsection \<open>Rebuild and packet-in steps\<close>










lemma send_port_mod_msgs:
  "send_port_mod env dp pn opt = Inr ms \<Longrightarrow> \<forall>m\<in>set ms. is_port_mod m"
  unfolding send_port_mod_def by (auto split: list.splits option.splits)

lemma block_links_loop_msgs:
  "block_links_loop env c excepts es = (r, ms) \<Longrightarrow> \<forall>m\<in>set ms. is_port_mod m"
proof (induction es arbitrary: r ms)
  case Nil
  then show ?case by simp
next
  case (Cons e es)
  show ?case
  proof (cases "(fst e, fst (snd e)) \<in> set excepts \<or> (fst (snd e), fst e) \<in> set excepts")
    case True
    with Cons show ?thesis by simp
  next
    case False
    show ?thesis
    proof (cases "find_datapath_by_id c (fst e)")
      case None
      with False Cons show ?thesis by simp
    next
      case (Some sdp)
      note s = Some
      show ?thesis
      proof (cases "find_datapath_by_id c (fst (snd e))")
        case None
        with False s Cons show ?thesis by simp
      next
        case (Some ddp)
        show ?thesis
        proof (cases "send_port_mod env sdp (src_port (snd (snd e))) OFPPC_PORT_DOWN")
          case (Inl err)
          with False s Some Cons.prems show ?thesis by simp
        next
          case (Inr m1)
          note m1 = Inr
          show ?thesis
          proof (cases "send_port_mod env ddp (dst_port (snd (snd e))) OFPPC_PORT_DOWN")
            case (Inl err)
            with False s Some m1 Cons.prems send_port_mod_msgs[OF m1] show ?thesis by auto
          next
            case (Inr m2)
            obtain r2 ms2 where l: "block_links_loop env c excepts es = (r2, ms2)"
              by (cases "block_links_loop env c excepts es")
            with False s Some m1 Inr Cons.prems have "ms = m1 @ m2 @ ms2" by simp
            with Cons.IH[OF l] send_port_mod_msgs[OF m1] send_port_mod_msgs[OF Inr]
            show ?thesis by auto
          qed
        qed
      qed
    qed
  qed
qed

lemma block_links_msgs: "block_links env c excepts = (r, ms) \<Longrightarrow> \<forall>m\<in>set ms. is_port_mod m"
  unfolding block_links_def by (rule block_links_loop_msgs)





lemma compute_and_enforce_msgs:
  assumes "compute_and_enforce env c = Some (r, c', ms)"
  shows "\<forall>m\<in>set ms. is_port_mod m"
  using assms block_links_msgs unfolding compute_and_enforce_def
  by (fastforce split: Option.bind_splits sum.splits prod.splits)




lemma unknown_dst_floods:
  assumes "mac_lookup (learn c ev) (dp_id (pi_datapath ev)) (eth_dst ev) = None"
  shows "lookup_out_port (learn c ev) ev = OFPP_FLOOD"
  using assms unfolding mac_lookup_def lookup_out_port_def by (simp split: option.splits)









lemma triangle_Kruskal:
  "Kruskal (topo triangle_ctrl) =
     Some (Inr [(1, 2), (1, 3)],
           (topo triangle_ctrl)\<lparr>ufset := Some \<lparr>fa = [0, 1, 1, 1], uf_size = 3\<rparr>\<rparr>)"
  by code_simp




subsection \<open>Edge weights after a rebuild\<close>

lemma edge_lookup_ensure_node: "edge_lookup (ensure_node t n) a b = edge_lookup t a b"
  by (auto simp: ensure_node_def edge_lookup_def has_node_def map_of_append map_add_def
      split: option.splits if_splits)

lemma has_node_ensure_node: "has_node (ensure_node t n) m \<longleftrightarrow> has_node t m \<or> m = n"
  by (auto simp: ensure_node_def has_node_def map_of_append map_add_def
      split: option.splits if_splits)

lemma edge_lookup_add_edge:
  "edge_lookup (add_edge t u v d) a b = (if a = u \<and> b = v then Some d else edge_lookup t a b)"
proof -
  let ?t2 = "ensure_node (ensure_node t u) v"
  have l2: "edge_lookup ?t2 a b = edge_lookup t a b" for a b by (simp add: edge_lookup_ensure_node)
  have "has_node ?t2 u" by (simp add: has_node_ensure_node)
  then obtain ns where ns: "map_of (adj ?t2) u = Some ns" by (auto simp: has_node_def)
  have "edge_lookup (add_edge t u v d) a b =
          (case ((map_of (adj ?t2))(u \<mapsto> AList.update v d ns)) a of
             None \<Rightarrow> None | Some nbrs \<Rightarrow> map_of nbrs b)"
    by (simp add: add_edge_def Let_def edge_lookup_def ns update_conv')
  also have "\<dots> = (if a = u \<and> b = v then Some d else edge_lookup ?t2 a b)"
    using ns by (auto simp: edge_lookup_def update_conv' split: option.splits)
  finally show ?thesis by (simp add: l2)
qed

lemma add_link_lookup:
  "edge_lookup (fst (add_link randint (t, k) lk)) a b =
     (if a = link_src_dpid lk \<and> b = link_dst_dpid lk
      then Some \<lparr>src_port = link_src_port lk, dst_port = link_dst_port lk,
                 weight = (case edge_lookup t (link_dst_dpid lk) (link_src_dpid lk) of
                             Some d \<Rightarrow> weight d | None \<Rightarrow> randint k)\<rparr>
      else edge_lookup t a b)"
proof (cases "edge_lookup t (link_dst_dpid lk) (link_src_dpid lk)")
  case None
  then show ?thesis by (simp add: add_link_def Let_def edge_lookup_add_edge)
next
  case (Some d0)
  then show ?thesis by (simp add: add_link_def Let_def edge_lookup_add_edge)
qed

lemma add_link_counter:
  "snd (add_link randint (t, k) lk) =
     (case edge_lookup t (link_dst_dpid lk) (link_src_dpid lk) of Some d \<Rightarrow> k | None \<Rightarrow> Suc k)"
  by (simp add: add_link_def Let_def split: option.splits)

lemma sym_weights_add_link:
  assumes "sym_weights t"
  shows "sym_weights (fst (add_link randint (t, k) lk))"
  unfolding sym_weights_def
proof (intro allI impI)
  fix a b d d'
  let ?u = "link_src_dpid lk" and ?v = "link_dst_dpid lk"
  assume h: "edge_lookup (fst (add_link randint (t, k) lk)) a b = Some d \<and>
             edge_lookup (fst (add_link randint (t, k) lk)) b a = Some d'"
  let ?w = "case edge_lookup t ?v ?u of Some d0 \<Rightarrow> weight d0 | None \<Rightarrow> randint k"
  let ?new = "\<lparr>src_port = link_src_port lk, dst_port = link_dst_port lk, weight = ?w\<rparr>"
  have l: "edge_lookup (fst (add_link randint (t, k) lk)) x y =
             (if x = ?u \<and> y = ?v then Some ?new else edge_lookup t x y)" for x y
    by (rule add_link_lookup)
  from h have hab: "(if a = ?u \<and> b = ?v then Some ?new else edge_lookup t a b) = Some d"
    and hba: "(if b = ?u \<and> a = ?v then Some ?new else edge_lookup t b a) = Some d'"
    unfolding l by simp_all
  show "weight d = weight d'"
  proof (cases "a = ?u \<and> b = ?v")
    case True
    then have d: "d = ?new" using hab by (simp split: if_splits)
    show ?thesis
    proof (cases "b = ?u \<and> a = ?v")
      case True
      then have "d' = ?new" using hba by (simp split: if_splits)
      with d show ?thesis by simp
    next
      case False
      then have "edge_lookup t b a = Some d'" using hba by (simp split: if_splits)
      with True have "edge_lookup t ?v ?u = Some d'" by simp
      then have "?w = weight d'" by simp
      with d show ?thesis by simp
    qed
  next
    case False
    then have ab: "edge_lookup t a b = Some d" using hab by (simp split: if_splits)
    show ?thesis
    proof (cases "b = ?u \<and> a = ?v")
      case True
      then have d': "d' = ?new" using hba by (simp split: if_splits)
      from True ab have "edge_lookup t ?v ?u = Some d" by simp
      then have "?w = weight d" by simp
      with d' show ?thesis by simp
    next
      case False
      then have "edge_lookup t b a = Some d'" using hba by (simp split: if_splits)
      with ab assms show ?thesis unfolding sym_weights_def by blast
    qed
  qed
qed

lemma sym_weights_add_links:
  assumes "sym_weights (fst tk)"
  shows "sym_weights (fst (foldl (add_link randint) tk lks))"
  using assms
proof (induction lks arbitrary: tk)
  case Nil
  then show ?case by simp
next
  case (Cons lk lks)
  have "sym_weights (fst (add_link randint (fst tk, snd tk) lk))"
    using Cons.prems by (rule sym_weights_add_link)
  then show ?case using Cons.IH by simp
qed

lemma edge_lookup_add_node: "edge_lookup (add_node t np) a b = edge_lookup t a b"
  by (auto simp: add_node_def Let_def edge_lookup_def has_node_def map_of_append map_add_def
      split: option.splits if_splits)

lemma edge_lookup_add_nodes_from: "edge_lookup (add_nodes_from t nps) a b = edge_lookup t a b"
  unfolding add_nodes_from_def
  by (induction nps arbitrary: t) (simp_all add: edge_lookup_add_node)

lemma sym_weights_rebuild: "sym_weights (rebuild_topo env randint)"
proof -
  have "sym_weights (initialize_ufset (add_nodes_from Topo_init nps) n)" for nps n
    by (simp add: sym_weights_def edge_lookup_def initialize_ufset_def
        edge_lookup_add_nodes_from[unfolded edge_lookup_def] Topo_init_def)
  then show ?thesis unfolding rebuild_topo_def Let_def
    by (intro sym_weights_add_links) simp
qed

lemma wf_topo_init: "wf_topo Topo_init"
  by (simp add: wf_topo_def Topo_init_def)

lemma not_has_node_keys: "\<not> has_node t n \<Longrightarrow> n \<notin> fst ` set (adj t)"
  by (simp add: has_node_def map_of_eq_None_iff)

lemma wf_topo_ensure_node: "wf_topo t \<Longrightarrow> wf_topo (ensure_node t n)"
  using not_has_node_keys[of t n] by (auto simp: wf_topo_def ensure_node_def)

lemma wf_topo_add_node: "wf_topo t \<Longrightarrow> wf_topo (add_node t np)"
  using not_has_node_keys[of t "fst np"] by (auto simp: wf_topo_def add_node_def Let_def)

lemma set_update_subset: "set (AList.update k v al) \<subseteq> insert (k, v) (set al)"
  by (induction al) auto

lemma wf_topo_add_edge:
  assumes "wf_topo t"
  shows "wf_topo (add_edge t u v d)"
proof -
  let ?t2 = "ensure_node (ensure_node t u) v"
  let ?nbrs = "case map_of (adj ?t2) u of None \<Rightarrow> [] | Some ns \<Rightarrow> ns"
  have w2: "wf_topo ?t2" using assms by (intro wf_topo_ensure_node)
  then have d2: "distinct (map fst (adj ?t2))" and
    a2: "\<forall>un\<in>set (adj ?t2). distinct (map fst (snd un))"
    by (simp_all add: wf_topo_def list_all_iff)
  have "distinct (map fst ?nbrs)"
  proof (cases "map_of (adj ?t2) u")
    case None
    then show ?thesis by simp
  next
    case (Some ns)
    then have "(u, ns) \<in> set (adj ?t2)" by (rule map_of_SomeD)
    with a2 Some show ?thesis by auto
  qed
  then have dn: "distinct (map fst (AList.update v d ?nbrs))" by (rule distinct_update)
  have "distinct (map fst (AList.update u (AList.update v d ?nbrs) (adj ?t2)))"
    using d2 by (rule distinct_update)
  moreover have "\<forall>un\<in>set (AList.update u (AList.update v d ?nbrs) (adj ?t2)).
                    distinct (map fst (snd un))"
    using set_update_subset[of u "AList.update v d ?nbrs" "adj ?t2"] a2 dn by auto
  ultimately show ?thesis by (simp add: wf_topo_def add_edge_def Let_def list_all_iff)
qed

lemma wf_topo_add_link: "wf_topo (fst tk) \<Longrightarrow> wf_topo (fst (add_link randint tk lk))"
  by (simp add: add_link_def Let_def wf_topo_add_edge split: option.splits)

lemma wf_topo_add_links: "wf_topo (fst tk) \<Longrightarrow> wf_topo (fst (foldl (add_link randint) tk lks))"
  by (induction lks arbitrary: tk) (simp_all add: wf_topo_add_link)

lemma wf_topo_add_nodes_from: "wf_topo t \<Longrightarrow> wf_topo (add_nodes_from t nps)"
  unfolding add_nodes_from_def
  by (induction nps arbitrary: t) (simp_all add: wf_topo_add_node)

lemma wf_topo_rebuild: "wf_topo (rebuild_topo env randint)"
proof -
  have "wf_topo (initialize_ufset (add_nodes_from Topo_init nps) n)" for nps n
    using wf_topo_add_nodes_from[OF wf_topo_init, of nps]
    by (simp add: wf_topo_def initialize_ufset_def)
  then show ?thesis unfolding rebuild_topo_def Let_def
    by (intro wf_topo_add_links) simp
qed

lemma edges_iff_lookup:
  assumes "wf_topo t"
  shows "(u, v, d) \<in> set (edges t) \<longleftrightarrow> edge_lookup t u v = Some d"
proof -
  from assms have d1: "distinct (map fst (adj t))" and
    d2: "\<And>a ns. (a, ns) \<in> set (adj t) \<Longrightarrow> distinct (map fst ns)"
    by (auto simp: wf_topo_def list_all_iff)
  have "(u, v, d) \<in> set (edges t) \<longleftrightarrow> (\<exists>ns. (u, ns) \<in> set (adj t) \<and> (v, d) \<in> set ns)"
    by (auto simp: edges_def)
  also have "\<dots> \<longleftrightarrow> (\<exists>ns. map_of (adj t) u = Some ns \<and> map_of ns v = Some d)"
    using d1 d2 by (metis map_of_eq_Some_iff)
  also have "\<dots> \<longleftrightarrow> edge_lookup t u v = Some d"
    by (auto simp: edge_lookup_def split: option.splits)
  finally show ?thesis .
qed

text \<open>
  C6. After a rebuild, whenever the topology has both directed edges between two
  switches their weights are equal. In the link loop, a link whose reverse edge is
  already present takes the weight of that edge and draws nothing from the weight
  provider; a link without a reverse edge takes the next drawn weight.
\<close>

theorem weight_symmetry:
  "((u, v, d) \<in> set (edges (rebuild_topo env randint)) \<and>
    (v, u, d') \<in> set (edges (rebuild_topo env randint)) \<longrightarrow> weight d = weight d') \<and>
   (edge_lookup t (link_dst_dpid lk) (link_src_dpid lk) = Some d0 \<longrightarrow>
      snd (add_link randint (t, k) lk) = k \<and>
      edge_lookup (fst (add_link randint (t, k) lk)) (link_src_dpid lk) (link_dst_dpid lk) =
        Some \<lparr>src_port = link_src_port lk, dst_port = link_dst_port lk, weight = weight d0\<rparr>) \<and>
   (edge_lookup t (link_dst_dpid lk) (link_src_dpid lk) = None \<longrightarrow>
      snd (add_link randint (t, k) lk) = Suc k \<and>
      edge_lookup (fst (add_link randint (t, k) lk)) (link_src_dpid lk) (link_dst_dpid lk) =
        Some \<lparr>src_port = link_src_port lk, dst_port = link_dst_port lk, weight = randint k\<rparr>)"
proof -
  have "weight d = weight d'"
    if "(u, v, d) \<in> set (edges (rebuild_topo env randint))"
      "(v, u, d') \<in> set (edges (rebuild_topo env randint))"
    using that sym_weights_rebuild[of env randint]
    unfolding edges_iff_lookup[OF wf_topo_rebuild] sym_weights_def by blast
  then show ?thesis by (simp add: add_link_lookup add_link_counter)
qed

theorem weight_symmetry_witness:
  "(1, 3, \<lparr>src_port = 2, dst_port = 1, weight = 2\<rparr>)
     \<in> set (edges (rebuild_topo triangle_env (\<lambda>k. int k + 1))) \<and>
   (3, 1, \<lparr>src_port = 1, dst_port = 2, weight = 2\<rparr>)
     \<in> set (edges (rebuild_topo triangle_env (\<lambda>k. int k + 1))) \<and>
   weight \<lparr>src_port = 2, dst_port = 1, weight = 2\<rparr> = weight \<lparr>src_port = 1, dst_port = 2, weight = 2\<rparr>"
proof -
  have e: "edges (rebuild_topo triangle_env (\<lambda>k. int k + 1)) =
     [(1, 2, \<lparr>src_port = 1, dst_port = 1, weight = 1\<rparr>),
      (1, 3, \<lparr>src_port = 2, dst_port = 1, weight = 2\<rparr>),
      (2, 1, \<lparr>src_port = 1, dst_port = 1, weight = 1\<rparr>),
      (2, 3, \<lparr>src_port = 2, dst_port = 2, weight = 3\<rparr>),
      (3, 1, \<lparr>src_port = 1, dst_port = 2, weight = 2\<rparr>),
      (3, 2, \<lparr>src_port = 2, dst_port = 2, weight = 3\<rparr>)]"
    by code_simp
  have m: "(1, 3, \<lparr>src_port = 2, dst_port = 1, weight = 2\<rparr>)
     \<in> set (edges (rebuild_topo triangle_env (\<lambda>k. int k + 1))) \<and>
   (3, 1, \<lparr>src_port = 1, dst_port = 2, weight = 2\<rparr>)
     \<in> set (edges (rebuild_topo triangle_env (\<lambda>k. int k + 1)))"
    unfolding e by simp
  with weight_symmetry[of 1 3 "\<lparr>src_port = 2, dst_port = 1, weight = 2\<rparr>" triangle_env
      "\<lambda>k. int k + 1" "\<lparr>src_port = 1, dst_port = 2, weight = 2\<rparr>"]
  show ?thesis by blast
qed

subsection \<open>Find and union\<close>

lemma find_uf_at_root:
  assumes "root (fa s) r r"
  shows "find_uf s r = Some (Inr r, s)"
proof -
  from assms have "0 \<le> r \<and> r < int (length (fa s)) \<and> fa s ! nat r = r"
    using root_range by blast
  then have "list_get (fa s) r = Inr r" by (simp add: list_get_nonneg)
  then show ?thesis by (subst find_uf.simps) simp
qed

lemma uf_same_roots:
  assumes "root l a ra" and "root l b rb"
  shows "uf_same l a b \<longleftrightarrow> ra = rb"
  using assms root_unique unfolding uf_same_def by blast

text \<open>
  C7. For a disjoint-set initialised with count \<open>n\<close> and any sequence of find and
  union calls on ids in \<open>1..n\<close>: the sequence returns normally; find on two ids in
  \<open>1..n\<close> returns equal representatives exactly when the pairs unioned so far connect
  them; find of a representative returns it and changes nothing, and a repeated find
  returns the same representative; the path compression done by find leaves the
  same-component relation as it was; and right after \<open>union(x, y)\<close>, find of \<open>x\<close> and
  find of \<open>y\<close> return the same representative.
\<close>

theorem disjoint_set_tracks_connectivity:
  assumes "0 \<le> n" and "\<forall>op\<in>set ops. op_in_range n op"
    and "1 \<le> x" "x \<le> n" "1 \<le> y" "y \<le> n"
  shows "\<exists>s rx s1 ry s2.
           run_ops (UnionFindSet_init n) ops = Some (Inr (), s) \<and>
           find_uf s x = Some (Inr rx, s1) \<and> find_uf s1 y = Some (Inr ry, s2) \<and>
           (rx = ry \<longleftrightarrow> (x, y) \<in> conn (union_pairs ops)) \<and>
           find_uf s1 rx = Some (Inr rx, s1) \<and>
           (\<exists>s1'. find_uf s1 x = Some (Inr rx, s1')) \<and>
           (\<forall>a b. uf_same (fa s1) a b \<longleftrightarrow> uf_same (fa s) a b) \<and>
           (\<exists>s3 r s4 s5. union_uf s x y = Some (Inr (), s3) \<and>
              find_uf s3 x = Some (Inr r, s4) \<and> find_uf s4 y = Some (Inr r, s5))"
proof -
  let ?P = "union_pairs ops"
  have x0: "0 \<le> x" and y0: "0 \<le> y" using assms by simp_all
  from uf_abs_run_ops[OF uf_abs_init[OF assms(1)] assms(2)] obtain s where
    run: "run_ops (UnionFindSet_init n) ops = Some (Inr (), s)" and a: "uf_abs n ?P s"
    by auto
  from uf_abs_find[OF a x0 assms(4)] obtain rx s1 where
    fx: "find_uf s x = Some (Inr rx, s1)" and rx: "root (fa s) x rx" and a1: "uf_abs n ?P s1" and
    iff1: "\<forall>j q. root (fa s1) j q \<longleftrightarrow> root (fa s) j q" by blast
  from uf_abs_find[OF a1 y0 assms(6)] obtain ry s2 where
    fy: "find_uf s1 y = Some (Inr ry, s2)" and ry: "root (fa s1) y ry" by blast
  have rx1: "root (fa s1) x rx" using rx iff1 by simp
  have "rx = ry \<longleftrightarrow> uf_same (fa s1) x y" using uf_same_roots[OF rx1 ry] by simp
  also have "\<dots> \<longleftrightarrow> (x, y) \<in> conn ?P" using a1 x0 y0 assms(4,6) by (simp add: uf_abs_def)
  finally have c: "rx = ry \<longleftrightarrow> (x, y) \<in> conn ?P" .
  have idem: "find_uf s1 rx = Some (Inr rx, s1)"
    using root_root[OF rx1] by (rule find_uf_at_root)
  from find_uf_root[OF rx1] obtain s1' where again: "find_uf s1 x = Some (Inr rx, s1')" by blast
  have same: "\<forall>a b. uf_same (fa s1) a b \<longleftrightarrow> uf_same (fa s) a b"
    using iff1 by (simp add: uf_same_def)
  from uf_abs_union[OF a x0 assms(4) y0 assms(6)] obtain s3 where
    u: "union_uf s x y = Some (Inr (), s3)" and a3: "uf_abs n ((x, y) # ?P) s3" by blast
  from uf_abs_find[OF a3 x0 assms(4)] obtain r s4 where
    f3: "find_uf s3 x = Some (Inr r, s4)" and r3: "root (fa s3) x r" and
    a4: "uf_abs n ((x, y) # ?P) s4" and
    iff4: "\<forall>j q. root (fa s4) j q \<longleftrightarrow> root (fa s3) j q" by blast
  from uf_abs_find[OF a4 y0 assms(6)] obtain r' s5 where
    f4: "find_uf s4 y = Some (Inr r', s5)" and r4: "root (fa s4) y r'" by blast
  have r34: "root (fa s4) x r" using r3 iff4 by simp
  have "(x, y) \<in> conn ((x, y) # ?P)" by (rule conn_edge) simp
  then have "uf_same (fa s4) x y" using a4 x0 y0 assms(4,6) by (simp add: uf_abs_def)
  then have "r = r'" using uf_same_roots[OF r34 r4] by simp
  with f4 have f4': "find_uf s4 y = Some (Inr r, s5)" by simp
  from run fx fy c idem again same u f3 f4' show ?thesis by blast
qed

theorem disjoint_set_tracks_connectivity_witness:
  "\<exists>s rx s1 ry s2.
     run_ops (UnionFindSet_init 4) [Union 1 2, Union 3 4, Find 2, Union 2 4] = Some (Inr (), s) \<and>
     find_uf s 1 = Some (Inr rx, s1) \<and> find_uf s1 3 = Some (Inr ry, s2) \<and>
     (rx = ry \<longleftrightarrow> (1, 3) \<in> conn (union_pairs [Union 1 2, Union 3 4, Find 2, Union 2 4])) \<and>
     find_uf s1 rx = Some (Inr rx, s1) \<and>
     (\<exists>s1'. find_uf s1 1 = Some (Inr rx, s1')) \<and>
     (\<forall>a b. uf_same (fa s1) a b \<longleftrightarrow> uf_same (fa s) a b) \<and>
     (\<exists>s3 r s4 s5. union_uf s 1 3 = Some (Inr (), s3) \<and>
        find_uf s3 1 = Some (Inr r, s4) \<and> find_uf s4 3 = Some (Inr r, s5))"
  using disjoint_set_tracks_connectivity[of 4 "[Union 1 2, Union 3 4, Find 2, Union 2 4]" 1 3]
  by simp

subsection \<open>Kruskal selects greedily\<close>

lemma conn_cong: "set P = set Q \<Longrightarrow> conn P = conn Q"
  by (simp add: conn_def)

lemma conn_redundant: "a \<in> conn P \<Longrightarrow> conn (a # P) = conn P"
proof -
  assume a: "a \<in> conn P"
  obtain x y where xy: "a = (x, y)" by (cases a)
  have "(c, d) \<in> conn ((x, y) # P) \<longleftrightarrow> (c, d) \<in> conn P" for c d
    unfolding conn_Cons using a xy conn_trans[of _ _ P] conn_sym[of _ _ P] by blast
  then show ?thesis using xy by auto
qed

lemma in_range_Cons:
  "in_range n (e # es) \<longleftrightarrow>
     1 \<le> fst e \<and> fst e \<le> n \<and> 1 \<le> fst (snd e) \<and> fst (snd e) \<le> n \<and> in_range n es"
  by (simp add: in_range_def)

lemma Kruskal_loop_greedy:
  assumes "uf_abs n P s" and "in_range n es"
  shows "\<exists>s'. Kruskal_loop s es tree = Some (Inr (tree @ map ends (greedy P es)), s') \<and>
           uf_abs n (map ends (greedy P es) @ P) s' \<and> uf_size s' = uf_size s"
  using assms
proof (induction es arbitrary: s P tree)
  case Nil
  then show ?case by simp
next
  case (Cons e es)
  let ?u = "fst e" and ?v = "fst (snd e)"
  from Cons.prems(2) have u: "0 \<le> ?u" "?u \<le> n" and v: "0 \<le> ?v" "?v \<le> n"
    and rest: "in_range n es" by (simp_all add: in_range_Cons)
  from uf_abs_find[OF Cons.prems(1) u] obtain a s1 where
    f1: "find_uf s ?u = Some (Inr a, s1)" and ra: "root (fa s) ?u a" and a1: "uf_abs n P s1" and
    sz1: "uf_size s1 = uf_size s" and
    iff1: "\<forall>j q. root (fa s1) j q \<longleftrightarrow> root (fa s) j q" by blast
  from uf_abs_find[OF a1 v] obtain b s2 where
    f2: "find_uf s1 ?v = Some (Inr b, s2)" and rb: "root (fa s1) ?v b" and a2: "uf_abs n P s2" and
    sz2: "uf_size s2 = uf_size s1" by blast
  have ra1: "root (fa s1) ?u a" using ra iff1 by simp
  have "a = b \<longleftrightarrow> uf_same (fa s1) ?u ?v" using uf_same_roots[OF ra1 rb] by simp
  also have "\<dots> \<longleftrightarrow> (?u, ?v) \<in> conn P" using a1 u v by (simp add: uf_abs_def)
  finally have ab: "a = b \<longleftrightarrow> ends e \<in> conn P" by (simp add: ends_def)
  show ?case
  proof (cases "ends e \<in> conn P")
    case True
    with ab have eq: "a = b" by simp
    from Cons.IH[OF a2 rest, of tree] obtain s' where
      "Kruskal_loop s2 es tree = Some (Inr (tree @ map ends (greedy P es)), s')"
      "uf_abs n (map ends (greedy P es) @ P) s'" "uf_size s' = uf_size s2" by blast
    with True eq f1 f2 sz1 sz2 show ?thesis by simp
  next
    case False
    with ab have ne: "a \<noteq> b" by simp
    from uf_abs_union[OF a2 u v] obtain s3 where
      un: "union_uf s2 ?u ?v = Some (Inr (), s3)" and a3: "uf_abs n ((?u, ?v) # P) s3"
      and sz3: "uf_size s3 = uf_size s2" by blast
    from Cons.IH[OF a3 rest, of "tree @ [(?u, ?v)]"] obtain s' where
      k: "Kruskal_loop s3 es (tree @ [(?u, ?v)]) =
            Some (Inr ((tree @ [(?u, ?v)]) @ map ends (greedy ((?u, ?v) # P) es)), s')" and
      a': "uf_abs n (map ends (greedy ((?u, ?v) # P) es) @ (?u, ?v) # P) s'" and
      sz': "uf_size s' = uf_size s3" by blast
    have g: "greedy P (e # es) = e # greedy ((?u, ?v) # P) es"
      using False by (simp add: ends_def)
    have "uf_abs n (map ends (greedy P (e # es)) @ P) s' =
            uf_abs n (map ends (greedy ((?u, ?v) # P) es) @ (?u, ?v) # P) s'"
      unfolding g by (rule uf_abs_cong) (auto simp: ends_def)
    with a' have a'': "uf_abs n (map ends (greedy P (e # es)) @ P) s'" by simp
    have "Kruskal_loop s (e # es) tree =
            Some (Inr (tree @ map ends (greedy P (e # es))), s')"
      unfolding g using ne f1 f2 un k by (simp add: ends_def)
    with a'' sz1 sz2 sz3 sz' show ?thesis by simp
  qed
qed


lemma greedy_conn: "conn (map ends (greedy P es) @ P) = conn (map ends es @ P)"
proof (induction es arbitrary: P)
  case Nil
  show ?case by simp
next
  case (Cons e es)
  show ?case
  proof (cases "ends e \<in> conn P")
    case True
    have "ends e \<in> conn (map ends es @ P)"
      using True conn_mono[of P "map ends es @ P"] by auto
    then have "conn (ends e # map ends es @ P) = conn (map ends es @ P)" by (rule conn_redundant)
    with True Cons.IH[of P] show ?thesis by simp
  next
    case False
    have "conn (map ends (greedy (ends e # P) es) @ ends e # P) = conn (map ends es @ ends e # P)"
      by (rule Cons.IH)
    moreover have "conn (map ends (greedy (ends e # P) es) @ ends e # P) =
                   conn (ends e # map ends (greedy (ends e # P) es) @ P)"
      by (rule conn_cong) auto
    moreover have "conn (map ends es @ ends e # P) = conn (ends e # map ends es @ P)"
      by (rule conn_cong) auto
    ultimately show ?thesis using False by simp
  qed
qed

subsection \<open>Counting components\<close>

lemma card_image_same_kernel:
  assumes "finite V" and "\<forall>z\<in>V. \<forall>w\<in>V. f z = f w \<longleftrightarrow> h z = h w"
  shows "card (f ` V) = card (h ` V)"
  using assms
proof (induction V rule: finite_induct)
  case empty
  show ?case by simp
next
  case (insert a V)
  have "\<forall>z\<in>V. \<forall>w\<in>V. f z = f w \<longleftrightarrow> h z = h w" using insert.prems by blast
  then have IH: "card (f ` V) = card (h ` V)" by (rule insert.IH)
  have "f a \<in> f ` V \<longleftrightarrow> h a \<in> h ` V"
  proof
    assume "f a \<in> f ` V"
    then obtain w where w: "w \<in> V" "f a = f w" by auto
    from insert.prems w(1) have "f a = f w \<longleftrightarrow> h a = h w" by blast
    with w show "h a \<in> h ` V" by blast
  next
    assume "h a \<in> h ` V"
    then obtain w where w: "w \<in> V" "h a = h w" by auto
    from insert.prems w(1) have "f a = f w \<longleftrightarrow> h a = h w" by blast
    with w show "f a \<in> f ` V" by blast
  qed
  with IH insert.hyps show ?case by (simp add: card_insert_if)
qed

lemma card_image_coarser:
  assumes "finite V" and "\<forall>z\<in>V. \<forall>w\<in>V. f z = f w \<longrightarrow> h z = h w"
  shows "card (h ` V) \<le> card (f ` V)"
  using assms
proof (induction V rule: finite_induct)
  case empty
  show ?case by simp
next
  case (insert a V)
  have "\<forall>z\<in>V. \<forall>w\<in>V. f z = f w \<longrightarrow> h z = h w" using insert.prems by blast
  then have IH: "card (h ` V) \<le> card (f ` V)" by (rule insert.IH)
  have "f a \<in> f ` V \<longrightarrow> h a \<in> h ` V"
  proof
    assume "f a \<in> f ` V"
    then obtain w where w: "w \<in> V" "f a = f w" by auto
    from insert.prems w(1) have "f a = f w \<longrightarrow> h a = h w" by blast
    with w show "h a \<in> h ` V" by blast
  qed
  with IH insert.hyps show ?case by (simp add: card_insert_if)
qed

lemma conn_class_eq: "conn P `` {a} = conn P `` {b} \<longleftrightarrow> (a, b) \<in> conn P"
proof
  assume "conn P `` {a} = conn P `` {b}"
  moreover have "b \<in> conn P `` {b}" using conn_refl by auto
  ultimately have "b \<in> conn P `` {a}" by simp
  then show "(a, b) \<in> conn P" by simp
next
  assume ab: "(a, b) \<in> conn P"
  then have ba: "(b, a) \<in> conn P" by (rule conn_sym)
  show "conn P `` {a} = conn P `` {b}"
    using ab ba conn_trans[of _ _ P] by auto
qed

lemma components_cong: "set P = set Q \<Longrightarrow> components n P = components n Q"
  by (simp add: components_def conn_cong[of P Q])

lemma components_Nil: "card (components n []) = nat n"
proof -
  have "inj_on (\<lambda>x. conn [] `` {x}) {1..n}"
    by (rule inj_onI) (simp add: conn_class_eq conn_Nil)
  then show ?thesis by (simp add: components_def card_image)
qed

lemma components_nonempty: "1 \<le> n \<Longrightarrow> 1 \<le> card (components n P)"
proof -
  assume "1 \<le> n"
  then have "conn P `` {1} \<in> components n P" by (simp add: components_def)
  moreover have "finite (components n P)" by (simp add: components_def)
  ultimately have "0 < card (components n P)" by (auto simp: card_gt_0_iff)
  then show ?thesis by simp
qed

lemma image_merge:
  assumes "a \<in> A" and "a \<noteq> b"
  shows "(\<lambda>C. if C = b then a else C) ` A = A - {b}"
proof
  show "(\<lambda>C. if C = b then a else C) ` A \<subseteq> A - {b}" using assms by auto
  show "A - {b} \<subseteq> (\<lambda>C. if C = b then a else C) ` A"
  proof
    fix C assume "C \<in> A - {b}"
    then have C: "C \<in> A" "C \<noteq> b" by auto
    show "C \<in> (\<lambda>C. if C = b then a else C) ` A"
    proof (rule image_eqI[of _ _ C])
      show "C = (if C = b then a else C)" using C(2) by simp
      show "C \<in> A" by (rule C(1))
    qed
  qed
qed

lemma components_step:
  assumes "1 \<le> x" "x \<le> n" "1 \<le> y" "y \<le> n" and "(x, y) \<notin> conn P"
  shows "card (components n ((x, y) # P)) + 1 = card (components n P)"
proof -
  let ?c = "\<lambda>z. conn P `` {z}"
  let ?c' = "\<lambda>z. conn ((x, y) # P) `` {z}"
  let ?g = "\<lambda>C. if C = ?c y then ?c x else C"
  let ?V = "{1..n}"
  have ne: "?c x \<noteq> ?c y" using assms(5) by (simp add: conn_class_eq)
  have ker: "?c' z = ?c' w \<longleftrightarrow> ?g (?c z) = ?g (?c w)" for z w
  proof -
    have "?c' z = ?c' w \<longleftrightarrow> (z, w) \<in> conn P \<or> ((z, x) \<in> conn P \<and> (y, w) \<in> conn P) \<or>
            ((z, y) \<in> conn P \<and> (x, w) \<in> conn P)"
      by (simp add: conn_class_eq conn_Cons)
    also have "\<dots> \<longleftrightarrow> ?g (?c z) = ?g (?c w)"
    proof -
      have gz: "?g (?c z) = (if (z, y) \<in> conn P then ?c x else ?c z)"
        by (simp add: conn_class_eq)
      have gw: "?g (?c w) = (if (w, y) \<in> conn P then ?c x else ?c w)"
        by (simp add: conn_class_eq)
      note s = conn_sym[of _ _ P] and t = conn_trans[of _ _ P]
      show ?thesis
      proof (cases "(z, y) \<in> conn P")
        case True
        note zy = True
        show ?thesis
        proof (cases "(w, y) \<in> conn P")
          case True
          with zy have "(z, w) \<in> conn P" using s t by blast
          with zy True show ?thesis unfolding gz gw by simp
        next
          case False
          have "(z, w) \<in> conn P \<or> (z, x) \<in> conn P \<and> (y, w) \<in> conn P \<or>
                (z, y) \<in> conn P \<and> (x, w) \<in> conn P \<longleftrightarrow> (x, w) \<in> conn P"
            using zy False s t by blast
          with zy False show ?thesis unfolding gz gw by (simp add: conn_class_eq)
        qed
      next
        case False
        note zy = False
        show ?thesis
        proof (cases "(w, y) \<in> conn P")
          case True
          have "(z, w) \<in> conn P \<or> (z, x) \<in> conn P \<and> (y, w) \<in> conn P \<or>
                (z, y) \<in> conn P \<and> (x, w) \<in> conn P \<longleftrightarrow> (z, x) \<in> conn P"
            using zy True s t by blast
          with zy True show ?thesis unfolding gz gw by (simp add: conn_class_eq)
        next
          case False
          have "(z, w) \<in> conn P \<or> (z, x) \<in> conn P \<and> (y, w) \<in> conn P \<or>
                (z, y) \<in> conn P \<and> (x, w) \<in> conn P \<longleftrightarrow> (z, w) \<in> conn P"
            using zy False s t by blast
          with zy False show ?thesis unfolding gz gw by (simp add: conn_class_eq)
        qed
      qed
    qed
    finally show ?thesis .
  qed
  have "card (?c' ` ?V) = card ((\<lambda>z. ?g (?c z)) ` ?V)"
    by (rule card_image_same_kernel) (simp_all add: ker)
  also have "(\<lambda>z. ?g (?c z)) ` ?V = ?g ` (?c ` ?V)" by (simp only: image_image)
  also have "?g ` (?c ` ?V) = ?c ` ?V - {?c y}"
  proof (rule image_merge)
    show "?c x \<in> ?c ` ?V" using assms(1,2) by (intro imageI) simp
    show "?c x \<noteq> ?c y" by (rule ne)
  qed
  also have "card (?c ` ?V - {?c y}) = card (?c ` ?V) - 1"
  proof -
    have "?c y \<in> ?c ` ?V" using assms(3,4) by (intro imageI) simp
    then show ?thesis by (rule card_Diff_singleton)
  qed
  finally have "card (components n ((x, y) # P)) = card (components n P) - 1"
    by (simp add: components_def)
  moreover have "1 \<le> card (components n P)" using assms(1,2) by (intro components_nonempty) simp
  ultimately show ?thesis by simp
qed

lemma greedy_count:
  assumes "in_range n es"
  shows "length (greedy P es) + card (components n (map ends es @ P)) = card (components n P)"
  using assms
proof (induction es arbitrary: P)
  case Nil
  show ?case by simp
next
  case (Cons e es)
  from Cons.prems have r: "1 \<le> fst e" "fst e \<le> n" "1 \<le> fst (snd e)" "fst (snd e) \<le> n"
    and rest: "in_range n es" by (simp_all add: in_range_Cons)
  show ?case
  proof (cases "ends e \<in> conn P")
    case True
    have "ends e \<in> conn (map ends es @ P)"
      using True conn_mono[of P "map ends es @ P"] by auto
    then have "conn (ends e # map ends es @ P) = conn (map ends es @ P)" by (rule conn_redundant)
    then have "components n (map ends (e # es) @ P) = components n (map ends es @ P)"
      by (simp add: components_def)
    with True Cons.IH[OF rest, of P] show ?thesis by simp
  next
    case False
    then have "(fst e, fst (snd e)) \<notin> conn P" by (simp add: ends_def)
    from components_step[OF r this]
    have st: "card (components n (ends e # P)) + 1 = card (components n P)" by (simp add: ends_def)
    have "components n (map ends (e # es) @ P) = components n (map ends es @ ends e # P)"
      by (rule components_cong) auto
    with False Cons.IH[OF rest, of "ends e # P"] st show ?thesis by simp
  qed
qed

lemma in_range_sort: "in_range n (sort_key f es) = in_range n es"
  by (simp add: in_range_def list_all_iff)

lemma Kruskal_greedy:
  assumes "0 \<le> n" and "ufset t = Some (UnionFindSet_init n)" and "in_range n (edges t)"
  shows "\<exists>s'. Kruskal t =
              Some (Inr (map ends (greedy [] (sort_key edge_weight (edges t)))),
                    t\<lparr>ufset := Some s'\<rparr>) \<and>
           uf_abs n (map ends (greedy [] (sort_key edge_weight (edges t)))) s'"
proof -
  let ?S = "sort_key edge_weight (edges t)"
  have r: "in_range n ?S" using assms(3) by (simp add: in_range_sort)
  from Kruskal_loop_greedy[OF uf_abs_init[OF assms(1)] r, of "[]"] obtain s' where
    k: "Kruskal_loop (UnionFindSet_init n) ?S [] = Some (Inr (map ends (greedy [] ?S)), s')" and
    a: "uf_abs n (map ends (greedy [] ?S) @ []) s'" by auto
  have "Kruskal t = Some (Inr (map ends (greedy [] ?S)), t\<lparr>ufset := Some s'\<rparr>)"
    by (simp add: Kruskal_def Let_def assms(2) k)
  with a show ?thesis by auto
qed

text \<open>
  C4. On a graph whose edges join switches in \<open>1..n\<close>, with the disjoint-set freshly
  initialised for \<open>n\<close>, \<open>Kruskal\<close> returns normally, and the number of tree edges plus
  the number of connected components of the switches \<open>1..n\<close> is \<open>n\<close>: \<open>n - k\<close> edges for
  \<open>k\<close> components, \<open>n - 1\<close> for a connected graph, never more than \<open>n - 1\<close>.
\<close>

theorem Kruskal_tree_size:
  assumes "0 \<le> n" and "ufset t = Some (UnionFindSet_init n)" and "in_range n (edges t)"
  shows "\<exists>tree t'. Kruskal t = Some (Inr tree, t') \<and>
           int (length tree) = n - int (card (components n (map ends (edges t)))) \<and>
           (card (components n (map ends (edges t))) = 1 \<longrightarrow> int (length tree) = n - 1) \<and>
           (1 \<le> n \<longrightarrow> int (length tree) \<le> n - 1)"
proof -
  let ?S = "sort_key edge_weight (edges t)"
  let ?T = "greedy [] ?S"
  let ?k = "card (components n (map ends (edges t)))"
  from Kruskal_greedy[OF assms] obtain s' where
    k: "Kruskal t = Some (Inr (map ends ?T), t\<lparr>ufset := Some s'\<rparr>)" by blast
  have r: "in_range n ?S" using assms(3) by (simp add: in_range_sort)
  have "length ?T + card (components n (map ends ?S @ [])) = card (components n [])"
    using r by (rule greedy_count)
  moreover have "components n (map ends ?S @ []) = components n (map ends (edges t))"
    by (rule components_cong) simp
  ultimately have c: "length ?T + ?k = nat n" by (simp add: components_Nil)
  then have 1: "int (length (map ends ?T)) = n - int ?k" using assms(1) by simp
  have 2: "?k = 1 \<longrightarrow> int (length (map ends ?T)) = n - 1" using 1 by simp
  have 3: "1 \<le> n \<longrightarrow> int (length (map ends ?T)) \<le> n - 1"
    using 1 components_nonempty[of n "map ends (edges t)"] by auto
  from k 1 2 3 show ?thesis by blast
qed

lemma triangle_fresh: "ufset (topo triangle_ctrl) = Some (UnionFindSet_init 3)"
  by code_simp

lemma triangle_in_range: "in_range 3 (edges (topo triangle_ctrl))"
  by code_simp

theorem Kruskal_tree_size_witness:
  "Kruskal (topo triangle_ctrl) =
     Some (Inr [(1, 2), (1, 3)],
           (topo triangle_ctrl)\<lparr>ufset := Some \<lparr>fa = [0, 1, 1, 1], uf_size = 3\<rparr>\<rparr>) \<and>
   card (components 3 (map ends (edges (topo triangle_ctrl)))) = 1"
proof -
  from Kruskal_tree_size[of 3 "topo triangle_ctrl", OF _ triangle_fresh triangle_in_range]
  obtain tree t' where "Kruskal (topo triangle_ctrl) = Some (Inr tree, t')"
    "int (length tree) = 3 - int (card (components 3 (map ends (edges (topo triangle_ctrl)))))"
    by auto
  then show ?thesis unfolding triangle_Kruskal by auto
qed

lemma conn_member: "a \<in> set P \<Longrightarrow> a \<in> conn P"
  unfolding conn_def by (rule r_into_rtrancl) simp


lemma insort_key_map:
  "map f (insort_key (\<lambda>a. g (f a)) x xs) = insort_key g (f x) (map f xs)"
  by (induction xs) simp_all

lemma sort_key_map: "map f (sort_key (\<lambda>a. g (f a)) xs) = sort_key g (map f xs)"
  by (induction xs) (simp_all add: insort_key_map)

lemma Kruskal_loop_ends:
  "map ends es = map ends es' \<Longrightarrow> Kruskal_loop s es tree = Kruskal_loop s es' tree"
proof (induction es arbitrary: es' s tree)
  case Nil
  then show ?case by simp
next
  case (Cons e es)
  then obtain e' es2 where es': "es' = e' # es2" and e: "ends e = ends e'"
    and rest: "map ends es = map ends es2" by auto
  from e have f: "fst e = fst e'" "fst (snd e) = fst (snd e')" by (simp_all add: ends_def)
  have IH: "Kruskal_loop s0 es tree0 = Kruskal_loop s0 es2 tree0" for s0 tree0
    using Cons.IH[OF rest] .
  show ?case unfolding es' Kruskal_loop.simps f IH by (rule refl)
qed

text \<open>
  C10. The result of \<open>Kruskal\<close> (the outcome with the tree-edge list, and the
  disjoint-set it leaves) is a function of the edge list (endpoints and weights, in
  insertion order) and of the starting disjoint-set alone: two topologies that agree on
  these give the same result, whatever else differs. The sort used is stable: edges of
  equal weight keep their insertion order.
\<close>

theorem Kruskal_deterministic:
  assumes "map (\<lambda>e. (fst e, fst (snd e), edge_weight e)) (edges t1) =
           map (\<lambda>e. (fst e, fst (snd e), edge_weight e)) (edges t2)"
    and "ufset t1 = ufset t2"
  shows "map_option fst (Kruskal t1) = map_option fst (Kruskal t2) \<and>
         map_option (\<lambda>r. ufset (snd r)) (Kruskal t1) = map_option (\<lambda>r. ufset (snd r)) (Kruskal t2) \<and>
         (\<forall>w. filter (\<lambda>e. edge_weight e = w) (sort_key edge_weight (edges t1)) =
              filter (\<lambda>e. edge_weight e = w) (edges t1))"
proof -
  let ?p = "\<lambda>e::edge. (fst e, fst (snd e), edge_weight e)"
  let ?S1 = "sort_key edge_weight (edges t1)" and ?S2 = "sort_key edge_weight (edges t2)"
  have w: "edge_weight = (\<lambda>e. snd (snd (?p e)))" by (simp add: fun_eq_iff)
  have "map ?p ?S1 = sort_key (\<lambda>x. snd (snd x)) (map ?p (edges t1))"
    by (subst w) (rule sort_key_map)
  moreover have "map ?p ?S2 = sort_key (\<lambda>x. snd (snd x)) (map ?p (edges t2))"
    by (subst w) (rule sort_key_map)
  ultimately have p: "map ?p ?S1 = map ?p ?S2" using assms(1) by simp
  have "map ends ?S1 = map (\<lambda>x. (fst x, fst (snd x))) (map ?p ?S1)"
    by (simp add: ends_def)
  also have "\<dots> = map (\<lambda>x. (fst x, fst (snd x))) (map ?p ?S2)" by (simp only: p)
  also have "\<dots> = map ends ?S2" by (simp add: ends_def)
  finally have e: "map ends ?S1 = map ends ?S2" .
  have l: "Kruskal_loop s ?S1 [] = Kruskal_loop s ?S2 []" for s
    using e by (rule Kruskal_loop_ends)
  have n: "?S1 = [] \<longleftrightarrow> ?S2 = []" using e by (metis map_is_Nil_conv)
  have 1: "map_option fst (Kruskal t1) = map_option fst (Kruskal t2)"
    using assms(2) n l
    by (cases "ufset t2")
       (simp_all add: Kruskal_def Let_def option.map_comp comp_def case_prod_beta)
  have 2: "map_option (\<lambda>r. ufset (snd r)) (Kruskal t1) = map_option (\<lambda>r. ufset (snd r)) (Kruskal t2)"
    using assms(2) n l
    by (cases "ufset t2")
       (simp_all add: Kruskal_def Let_def option.map_comp comp_def case_prod_beta)
  from 1 2 show ?thesis by (simp add: sort_key_stable)
qed

theorem Kruskal_deterministic_witness:
  "map_option fst (Kruskal (topo triangle_ctrl)) =
     map_option fst (Kruskal ((topo triangle_ctrl)\<lparr>node_attrs := [], MST_exist := True\<rparr>)) \<and>
   map_option fst (Kruskal (topo triangle_ctrl)) = Some (Inr [(1, 2), (1, 3)])"
proof -
  have "edges ((topo triangle_ctrl)\<lparr>node_attrs := [], MST_exist := True\<rparr>) = edges (topo triangle_ctrl)"
    by (simp add: edges_def)
  then show ?thesis
    using Kruskal_deterministic[of "topo triangle_ctrl"
        "(topo triangle_ctrl)\<lparr>node_attrs := [], MST_exist := True\<rparr>"]
    by (simp add: triangle_Kruskal)
qed

subsection \<open>Forests\<close>

lemma forest_remove: "forest (xs @ a # ys) \<Longrightarrow> forest (xs @ ys)"
proof (induction xs)
  case Nil
  then show ?case by simp
next
  case (Cons x xs)
  from Cons.prems have x: "x \<notin> conn (xs @ a # ys)" and f: "forest (xs @ a # ys)" by simp_all
  have "conn (xs @ ys) \<subseteq> conn (xs @ a # ys)" by (rule conn_mono) auto
  with x have "x \<notin> conn (xs @ ys)" by blast
  with Cons.IH[OF f] show ?case by simp
qed

lemma forest_count:
  assumes "forest Q" and "\<forall>a\<in>set Q. 1 \<le> fst a \<and> fst a \<le> n \<and> 1 \<le> snd a \<and> snd a \<le> n"
  shows "length Q + card (components n Q) = nat n"
  using assms
proof (induction Q)
  case Nil
  show ?case by (simp add: components_Nil)
next
  case (Cons a Q)
  obtain x y where a: "a = (x, y)" by (cases a)
  from Cons.prems a have r: "1 \<le> x" "x \<le> n" "1 \<le> y" "y \<le> n" and nc: "(x, y) \<notin> conn Q"
    and f: "forest Q" by simp_all
  have "\<forall>a\<in>set Q. 1 \<le> fst a \<and> fst a \<le> n \<and> 1 \<le> snd a \<and> snd a \<le> n"
    using Cons.prems(2) by simp
  from Cons.IH[OF f this] components_step[OF r nc] a show ?case by simp
qed

lemma acyclic_edges_Cons:
  assumes "acyclic_edges (e # F)"
  shows "ends e \<notin> conn (map ends F)" and "acyclic_edges F"
proof -
  from assms have "ends e \<notin> conn (map ends ([] @ F))"
    unfolding acyclic_edges_def by (metis append_Nil)
  then show "ends e \<notin> conn (map ends F)" by simp
  show "acyclic_edges F" unfolding acyclic_edges_def
  proof (intro allI impI)
    fix xs a ys assume "F = xs @ a # ys"
    then have "e # F = (e # xs) @ a # ys" by simp
    with assms have n: "ends a \<notin> conn (map ends ((e # xs) @ ys))"
      unfolding acyclic_edges_def by blast
    have "conn (map ends (xs @ ys)) \<subseteq> conn (map ends ((e # xs) @ ys))"
      by (rule conn_mono) auto
    with n show "ends a \<notin> conn (map ends (xs @ ys))" by blast
  qed
qed

lemma acyclic_edges_forest: "acyclic_edges F \<Longrightarrow> forest (map ends F)"
  by (induction F) (simp_all add: acyclic_edges_Cons)

lemma forest_filter: "forest (map ends F) \<Longrightarrow> forest (map ends (filter p F))"
proof (induction F)
  case Nil
  show ?case by simp
next
  case (Cons e F)
  from Cons.prems have n: "ends e \<notin> conn (map ends F)" and f: "forest (map ends F)" by simp_all
  have "conn (map ends (filter p F)) \<subseteq> conn (map ends F)" by (rule conn_mono) auto
  with n have "ends e \<notin> conn (map ends (filter p F))" by blast
  with Cons.IH[OF f] show ?case by simp
qed

lemma in_range_pairs:
  "in_range n F \<Longrightarrow> \<forall>a\<in>set (map ends F). 1 \<le> fst a \<and> fst a \<le> n \<and> 1 \<le> snd a \<and> snd a \<le> n"
  by (auto simp: in_range_def list_all_iff ends_def)

lemma in_range_subset: "set F \<subseteq> set es \<Longrightarrow> in_range n es \<Longrightarrow> in_range n F"
  by (auto simp: in_range_def list_all_iff)

lemma components_coarser:
  assumes "conn Q \<subseteq> conn Q'"
  shows "card (components n Q') \<le> card (components n Q)"
  unfolding components_def
proof (rule card_image_coarser)
  show "finite {1..n}" by simp
  show "\<forall>z\<in>{1..n}. \<forall>w\<in>{1..n}. conn Q `` {z} = conn Q `` {w} \<longrightarrow> conn Q' `` {z} = conn Q' `` {w}"
    using assms unfolding conn_class_eq by blast
qed

lemma forest_rev_acyclic:
  assumes "forest (rev (map ends T))" and "in_range n T"
  shows "acyclic_edges T"
  unfolding acyclic_edges_def
proof (intro allI impI notI)
  fix xs e ys
  assume T: "T = xs @ e # ys" and c: "ends e \<in> conn (map ends (xs @ ys))"
  let ?Q = "rev (map ends T)"
  let ?Q' = "rev (map ends ys) @ rev (map ends xs)"
  have Q: "?Q = rev (map ends ys) @ ends e # rev (map ends xs)" by (simp add: T)
  have f': "forest ?Q'" using assms(1) unfolding Q by (rule forest_remove)
  have rQ: "\<forall>a\<in>set ?Q. 1 \<le> fst a \<and> fst a \<le> n \<and> 1 \<le> snd a \<and> snd a \<le> n"
    using in_range_pairs[OF assms(2)] by simp
  then have rQ': "\<forall>a\<in>set ?Q'. 1 \<le> fst a \<and> fst a \<le> n \<and> 1 \<le> snd a \<and> snd a \<le> n"
    unfolding Q by simp
  have c1: "length ?Q + card (components n ?Q) = nat n" using assms(1) rQ by (rule forest_count)
  have c2: "length ?Q' + card (components n ?Q') = nat n" using f' rQ' by (rule forest_count)
  have "conn (map ends (xs @ ys)) = conn ?Q'" by (rule conn_cong) auto
  with c have "ends e \<in> conn ?Q'" by simp
  then have "conn (ends e # ?Q') = conn ?Q'" by (rule conn_redundant)
  moreover have "conn ?Q = conn (ends e # ?Q')" unfolding Q by (rule conn_cong) auto
  ultimately have "components n ?Q = components n ?Q'" by (simp add: components_def)
  with c1 c2 have "length ?Q = length ?Q'" by simp
  then show False by (simp add: T)
qed

lemma greedy_subset: "set (greedy P es) \<subseteq> set es"
  by (induction es arbitrary: P) auto

lemma greedy_forest: "forest P \<Longrightarrow> forest (rev (map ends (greedy P es)) @ P)"
proof (induction es arbitrary: P)
  case Nil
  then show ?case by simp
next
  case (Cons e es)
  show ?case
  proof (cases "ends e \<in> conn P")
    case True
    with Cons.IH[OF Cons.prems] show ?thesis by simp
  next
    case False
    with Cons.prems have "forest (ends e # P)" by simp
    from Cons.IH[OF this] False show ?thesis by simp
  qed
qed

lemma greedy_filter_sorted:
  assumes "sorted (map edge_weight S)"
  shows "filter (\<lambda>e. edge_weight e \<le> \<theta>) (greedy P S) = greedy P (filter (\<lambda>e. edge_weight e \<le> \<theta>) S)"
  using assms
proof (induction S arbitrary: P)
  case Nil
  show ?case by simp
next
  case (Cons e S)
  from Cons.prems have s: "sorted (map edge_weight S)"
    and le: "\<forall>x\<in>set S. edge_weight e \<le> edge_weight x" by simp_all
  show ?case
  proof (cases "edge_weight e \<le> \<theta>")
    case True
    then show ?thesis using Cons.IH[OF s] by simp
  next
    case False
    with le have all: "\<forall>x\<in>set (e # S). \<not> edge_weight x \<le> \<theta>" by auto
    then have "filter (\<lambda>e. edge_weight e \<le> \<theta>) (e # S) = []" by (simp add: filter_empty_conv)
    moreover have "filter (\<lambda>e. edge_weight e \<le> \<theta>) (greedy P (e # S)) = []"
      unfolding filter_empty_conv using all greedy_subset[of P "e # S"] by blast
    ultimately show ?thesis by simp
  qed
qed

subsection \<open>Weights by thresholds\<close>

lemma indicator_sum:
  fixes c z M :: int
  assumes "c \<le> z" and "z \<le> M"
  shows "(\<Sum>\<theta>\<in>{c..<M}. if \<theta> < z then 1 else 0) = z - c"
proof -
  have "(\<Sum>\<theta>\<in>{c..<M}. if \<theta> < z then 1 else (0::int)) = (\<Sum>\<theta>\<in>{\<theta>\<in>{c..<M}. \<theta> < z}. 1)"
    by (rule sum.inter_filter[symmetric]) simp
  also have "{\<theta>\<in>{c..<M}. \<theta> < z} = {c..<z}" using assms by auto
  also have "(\<Sum>\<theta>\<in>{c..<z}. (1::int)) = z - c" using assms by simp
  finally show ?thesis .
qed

lemma sum_list_threshold:
  fixes zs :: "int list"
  assumes "\<forall>z\<in>set zs. c \<le> z \<and> z \<le> M"
  shows "sum_list zs = c * int (length zs) + (\<Sum>\<theta>\<in>{c..<M}. int (length (filter (\<lambda>z. \<theta> < z) zs)))"
  using assms
proof (induction zs)
  case Nil
  show ?case by simp
next
  case (Cons z zs)
  from Cons.prems have z: "c \<le> z" "z \<le> M" and rest: "\<forall>z\<in>set zs. c \<le> z \<and> z \<le> M" by simp_all
  have "(\<Sum>\<theta>\<in>{c..<M}. int (length (filter (\<lambda>z. \<theta> < z) (z # zs)))) =
        (\<Sum>\<theta>\<in>{c..<M}. (if \<theta> < z then 1 else 0) + int (length (filter (\<lambda>z. \<theta> < z) zs)))"
    by (rule sum.cong) simp_all
  also have "\<dots> = (\<Sum>\<theta>\<in>{c..<M}. if \<theta> < z then 1 else 0) +
                  (\<Sum>\<theta>\<in>{c..<M}. int (length (filter (\<lambda>z. \<theta> < z) zs)))"
    by (rule sum.distrib)
  also have "\<dots> = (z - c) + (\<Sum>\<theta>\<in>{c..<M}. int (length (filter (\<lambda>z. \<theta> < z) zs)))"
    by (simp only: indicator_sum[OF z])
  finally have s: "(\<Sum>\<theta>\<in>{c..<M}. int (length (filter (\<lambda>z. \<theta> < z) (z # zs)))) =
        (z - c) + (\<Sum>\<theta>\<in>{c..<M}. int (length (filter (\<lambda>z. \<theta> < z) zs)))" .
  have "sum_list (z # zs) = z + sum_list zs" by simp
  also have "\<dots> = z + (c * int (length zs) + (\<Sum>\<theta>\<in>{c..<M}. int (length (filter (\<lambda>z. \<theta> < z) zs))))"
    using Cons.IH[OF rest] by simp
  also have "\<dots> = c * int (length (z # zs)) +
                  ((z - c) + (\<Sum>\<theta>\<in>{c..<M}. int (length (filter (\<lambda>z. \<theta> < z) zs))))"
    by (simp add: algebra_simps)
  finally show ?case by (simp only: s)
qed

lemma length_filter_above:
  fixes zs :: "int list"
  shows "int (length (filter (\<lambda>z. \<theta> < z) zs)) =
           int (length zs) - int (length (filter (\<lambda>z. z \<le> \<theta>) zs))"
proof -
  have "length (filter (\<lambda>z. z \<le> \<theta>) zs) + length (filter (\<lambda>z. \<not> z \<le> \<theta>) zs) = length zs"
    by (rule sum_length_filter_compl)
  moreover have "filter (\<lambda>z. \<not> z \<le> \<theta>) zs = filter (\<lambda>z. \<theta> < z) zs"
    by (rule filter_cong) auto
  ultimately show ?thesis by simp
qed

lemma sum_list_majorize:
  fixes xs ys :: "int list"
  assumes "length xs = length ys"
    and "\<forall>\<theta>. length (filter (\<lambda>z. z \<le> \<theta>) ys) \<le> length (filter (\<lambda>z. z \<le> \<theta>) xs)"
  shows "sum_list xs \<le> sum_list ys"
proof -
  define c where "c = Min (insert 0 (set xs \<union> set ys))"
  define M where "M = Max (insert 0 (set xs \<union> set ys))"
  have b: "c \<le> z \<and> z \<le> M" if "z \<in> set xs \<union> set ys" for z
    using that unfolding c_def M_def by (simp add: Min_le)
  have bx: "\<forall>z\<in>set xs. c \<le> z \<and> z \<le> M" using b by blast
  have bys: "\<forall>z\<in>set ys. c \<le> z \<and> z \<le> M" using b by blast
  have "(\<Sum>\<theta>\<in>{c..<M}. int (length (filter (\<lambda>z. \<theta> < z) xs))) \<le>
        (\<Sum>\<theta>\<in>{c..<M}. int (length (filter (\<lambda>z. \<theta> < z) ys)))"
  proof (rule sum_mono)
    fix \<theta>
    from assms(2) have "int (length (filter (\<lambda>z. z \<le> \<theta>) ys)) \<le> int (length (filter (\<lambda>z. z \<le> \<theta>) xs))"
      by simp
    then show "int (length (filter (\<lambda>z. \<theta> < z) xs)) \<le> int (length (filter (\<lambda>z. \<theta> < z) ys))"
      unfolding length_filter_above using assms(1) by simp
  qed
  then show ?thesis
    unfolding sum_list_threshold[OF bx] sum_list_threshold[OF bys] using assms(1) by simp
qed

subsection \<open>Minimum weight\<close>

lemma conn_mono_edges: "set F \<subseteq> set S \<Longrightarrow> conn (map ends F) \<subseteq> conn (map ends S)"
proof (rule conn_mono)
  assume "set F \<subseteq> set S"
  then have "ends ` set F \<subseteq> ends ` set S" by (rule image_mono)
  then show "set (map ends F) \<subseteq> set (map ends S)" by (simp only: set_map)
qed

lemma conn_subset_if_members:
  assumes "\<forall>a\<in>set Q. a \<in> conn Q'"
  shows "conn Q \<subseteq> conn Q'"
proof -
  have "set Q \<union> (set Q)\<inverse> \<subseteq> conn Q'"
  proof
    fix p assume "p \<in> set Q \<union> (set Q)\<inverse>"
    then show "p \<in> conn Q'"
    proof
      assume "p \<in> set Q"
      with assms show ?thesis by blast
    next
      assume "p \<in> (set Q)\<inverse>"
      then obtain x y where p: "p = (x, y)" and "(y, x) \<in> set Q" by auto
      with assms have "(y, x) \<in> conn Q'" by blast
      then have "(x, y) \<in> conn Q'" by (rule conn_sym)
      with p show ?thesis by simp
    qed
  qed
  then have "set Q \<union> (set Q)\<inverse> \<subseteq> (set Q' \<union> (set Q')\<inverse>)\<^sup>*" by (simp add: conn_def)
  then have "(set Q \<union> (set Q)\<inverse>)\<^sup>* \<subseteq> (set Q' \<union> (set Q')\<inverse>)\<^sup>*"
    by (rule rtrancl_subset_rtrancl)
  then show ?thesis by (simp add: conn_def)
qed

lemma length_filter_weights:
  "length (filter (\<lambda>z. z \<le> \<theta>) (map edge_weight F)) =
     length (filter (\<lambda>e. edge_weight e \<le> \<theta>) F)"
  by (induction F) simp_all

lemma greedy_spanning_forest:
  assumes "in_range n S"
  shows "spanning_forest S (greedy [] S)"
proof -
  let ?T = "greedy [] S"
  have sub: "set ?T \<subseteq> set S" by (rule greedy_subset)
  have "forest (rev (map ends ?T) @ [])" by (rule greedy_forest) simp
  then have "forest (rev (map ends ?T))" by simp
  then have ac: "acyclic_edges ?T"
    using in_range_subset[OF sub assms] by (rule forest_rev_acyclic)
  have c: "conn (map ends ?T) = conn (map ends S)" using greedy_conn[of "[]" S] by simp
  have "spans S ?T" unfolding spans_def c
  proof
    fix e assume "e \<in> set S"
    then have "ends e \<in> ends ` set S" by (rule imageI)
    then have "ends e \<in> set (map ends S)" by (simp only: set_map)
    then show "ends e \<in> conn (map ends S)" by (rule conn_member)
  qed
  with sub ac show ?thesis by (simp add: spanning_forest_def)
qed

lemma greedy_minimal:
  assumes "sorted (map edge_weight S)" and "in_range n S" and "spanning_forest S F"
  shows "total_weight (greedy [] S) \<le> total_weight F"
proof -
  let ?T = "greedy [] S"
  from assms(3) have sub: "set F \<subseteq> set S" and ac: "acyclic_edges F" and sp: "spans S F"
    by (simp_all add: spanning_forest_def)
  have rF: "in_range n F" using sub assms(2) by (rule in_range_subset)
  have fF: "forest (map ends F)" using ac by (rule acyclic_edges_forest)
  have cF: "length F + card (components n (map ends F)) = nat n"
    using forest_count[OF fF in_range_pairs[OF rF]] by (simp only: length_map)
  have cT: "length ?T + card (components n (map ends S)) = nat n"
    using greedy_count[OF assms(2), of "[]"] by (simp only: append_Nil2 components_Nil)
  have "conn (map ends F) \<subseteq> conn (map ends S)" using sub by (rule conn_mono_edges)
  moreover have "conn (map ends S) \<subseteq> conn (map ends F)"
  proof (rule conn_subset_if_members)
    show "\<forall>a\<in>set (map ends S). a \<in> conn (map ends F)"
    proof
      fix a assume "a \<in> set (map ends S)"
      then obtain e where "e \<in> set S" "a = ends e" by (auto simp only: set_map)
      with sp show "a \<in> conn (map ends F)" by (simp add: spans_def)
    qed
  qed
  ultimately have "conn (map ends F) = conn (map ends S)" by blast
  then have ceq: "components n (map ends F) = components n (map ends S)"
    by (simp only: components_def)
  have "length ?T + card (components n (map ends S)) = nat n" by (rule cT)
  also have "nat n = length F + card (components n (map ends S))"
    using cF[symmetric] by (simp only: ceq)
  finally have len: "length ?T = length F" by (rule add_right_imp_eq)
  have cnt: "length (filter (\<lambda>e. edge_weight e \<le> \<theta>) F) \<le>
             length (filter (\<lambda>e. edge_weight e \<le> \<theta>) ?T)" for \<theta>
  proof -
    let ?p = "\<lambda>e. edge_weight e \<le> \<theta>"
    let ?A = "filter ?p S" and ?F\<theta> = "filter ?p F"
    have rA: "in_range n ?A" by (rule in_range_subset[OF _ assms(2)]) simp
    have rF\<theta>: "in_range n ?F\<theta>" by (rule in_range_subset[OF _ rF]) simp
    have "forest (map ends ?F\<theta>)" using fF by (rule forest_filter)
    from forest_count[OF this in_range_pairs[OF rF\<theta>]]
    have c1: "length ?F\<theta> + card (components n (map ends ?F\<theta>)) = nat n"
      by (simp only: length_map)
    have c2: "length (greedy [] ?A) + card (components n (map ends ?A)) = nat n"
      using greedy_count[OF rA, of "[]"] by (simp only: append_Nil2 components_Nil)
    have "set ?F\<theta> \<subseteq> set ?A"
    proof
      fix e assume "e \<in> set ?F\<theta>"
      then have e: "e \<in> set F" "edge_weight e \<le> \<theta>" by simp_all
      from sub e(1) have "e \<in> set S" by (rule subsetD)
      with e(2) show "e \<in> set ?A" by simp
    qed
    then have "conn (map ends ?F\<theta>) \<subseteq> conn (map ends ?A)" by (rule conn_mono_edges)
    then have "card (components n (map ends ?A)) \<le> card (components n (map ends ?F\<theta>))"
      by (rule components_coarser)
    then have "length ?F\<theta> + card (components n (map ends ?A)) \<le>
               length ?F\<theta> + card (components n (map ends ?F\<theta>))" by (rule add_left_mono)
    also have "\<dots> = nat n" by (rule c1)
    also have "nat n = length (greedy [] ?A) + card (components n (map ends ?A))"
      by (rule c2[symmetric])
    finally have "length ?F\<theta> \<le> length (greedy [] ?A)" by (rule add_le_imp_le_right)
    then show ?thesis by (simp only: greedy_filter_sorted[OF assms(1)])
  qed
  have "sum_list (map edge_weight ?T) \<le> sum_list (map edge_weight F)"
  proof (rule sum_list_majorize)
    show "length (map edge_weight ?T) = length (map edge_weight F)" using len by simp
    show "\<forall>\<theta>. length (filter (\<lambda>z. z \<le> \<theta>) (map edge_weight F)) \<le>
              length (filter (\<lambda>z. z \<le> \<theta>) (map edge_weight ?T))"
      unfolding length_filter_weights using cnt by blast
  qed
  then show ?thesis by (simp add: total_weight_def)
qed

lemma spanning_forest_cong: "set es = set es' \<Longrightarrow> spanning_forest es F = spanning_forest es' F"
  by (simp add: spanning_forest_def spans_def)

lemma tree_weight_edges:
  assumes "wf_topo t" and "set T \<subseteq> set (edges t)"
  shows "tree_weight t (map ends T) = total_weight T"
proof -
  have "pair_weight t (ends e) = edge_weight e" if "e \<in> set T" for e
  proof -
    obtain u v d where e: "e = (u, v, d)" by (cases e)
    with that assms(2) have "(u, v, d) \<in> set (edges t)" by blast
    then have "edge_lookup t u v = Some d" using edges_iff_lookup[OF assms(1)] by simp
    then show ?thesis by (simp add: pair_weight_def ends_def edge_weight_def e)
  qed
  then have "map (pair_weight t) (map ends T) = map edge_weight T" by simp
  then show ?thesis by (simp only: tree_weight_def total_weight_def)
qed

subsection \<open>The lazy trigger\<close>

















subsection \<open>A second computation without a rebuild\<close>









subsection \<open>The weight of the tree produced\<close>

lemma mesh_Kruskal:
  "Kruskal mesh_topo =
     Some (Inr [(1, 3), (2, 3), (1, 4)],
           mesh_topo\<lparr>ufset := Some \<lparr>fa = [0, 2, 2, 2, 2], uf_size = 4\<rparr>\<rparr>)"
  by code_simp

lemma mesh_tree_weight: "tree_weight mesh_topo [(1, 3), (2, 3), (1, 4)] = 7"
  by code_simp

text \<open>
  C3 (as amended). On a graph with unique edge keys whose edges join switches in
  \<open>1..n\<close>, with the disjoint-set freshly initialised for \<open>n\<close>, \<open>Kruskal\<close> returns
  normally, the tree edges it returns are the endpoints of a spanning forest of the
  graph, their total weight is the weight of that forest, and it is the minimum
  spanning tree weight of the graph: no spanning forest of the graph weighs less. On
  the 4-switch full mesh with the weights
  \<open>{(1,2):3, (1,3):1, (1,4):4, (2,3):2, (2,4):5, (3,4):6}\<close> the tree returned is
  \<open>[(1, 3), (2, 3), (1, 4)]\<close>, of total weight 7.
\<close>

theorem Kruskal_minimum_weight:
  assumes "0 \<le> n" and "ufset t = Some (UnionFindSet_init n)" and "in_range n (edges t)"
    and "wf_topo t"
  shows "(\<exists>tree t' T. Kruskal t = Some (Inr tree, t') \<and>
            tree = map ends T \<and> spanning_forest (edges t) T \<and>
            tree_weight t tree = total_weight T \<and>
            (\<forall>F. spanning_forest (edges t) F \<longrightarrow> total_weight T \<le> total_weight F) \<and>
            is_mst_weight (edges t) (tree_weight t tree)) \<and>
         Kruskal mesh_topo =
           Some (Inr [(1, 3), (2, 3), (1, 4)],
                 mesh_topo\<lparr>ufset := Some \<lparr>fa = [0, 2, 2, 2, 2], uf_size = 4\<rparr>\<rparr>) \<and>
         tree_weight mesh_topo [(1, 3), (2, 3), (1, 4)] = 7"
proof -
  let ?S = "sort_key edge_weight (edges t)"
  let ?T = "greedy [] ?S"
  from Kruskal_greedy[OF assms(1-3)] obtain s' where
    k: "Kruskal t = Some (Inr (map ends ?T), t\<lparr>ufset := Some s'\<rparr>)" by blast
  have r: "in_range n ?S" using assms(3) by (simp add: in_range_sort)
  have srt: "sorted (map edge_weight ?S)" by (rule sorted_sort_key)
  have sS: "set ?S = set (edges t)" by simp
  have sub: "set ?T \<subseteq> set (edges t)" using greedy_subset[of "[]" ?S] by simp
  have w: "tree_weight t (map ends ?T) = total_weight ?T"
    using assms(4) sub by (rule tree_weight_edges)
  have "spanning_forest ?S ?T" using r by (rule greedy_spanning_forest)
  then have sf: "spanning_forest (edges t) ?T" by (simp only: spanning_forest_cong[OF sS])
  have mn: "total_weight ?T \<le> total_weight F" if "spanning_forest (edges t) F" for F
  proof -
    from that have "spanning_forest ?S F" by (simp only: spanning_forest_cong[OF sS])
    with srt r show ?thesis by (rule greedy_minimal)
  qed
  have m: "is_mst_weight (edges t) (tree_weight t (map ends ?T))"
    unfolding is_mst_weight_def w using sf mn by blast
  have "\<exists>tree t' T. Kruskal t = Some (Inr tree, t') \<and>
            tree = map ends T \<and> spanning_forest (edges t) T \<and>
            tree_weight t tree = total_weight T \<and>
            (\<forall>F. spanning_forest (edges t) F \<longrightarrow> total_weight T \<le> total_weight F) \<and>
            is_mst_weight (edges t) (tree_weight t tree)"
    using k sf w mn m by blast
  then show ?thesis using mesh_Kruskal mesh_tree_weight by blast
qed

theorem Kruskal_minimum_weight_witness:
  "Kruskal mesh_topo =
     Some (Inr [(1, 3), (2, 3), (1, 4)],
           mesh_topo\<lparr>ufset := Some \<lparr>fa = [0, 2, 2, 2, 2], uf_size = 4\<rparr>\<rparr>) \<and>
   (\<exists>T. [(1, 3), (2, 3), (1, 4)] = map ends T \<and> spanning_forest (edges mesh_topo) T \<and>
        total_weight T = 7 \<and>
        (\<forall>F. spanning_forest (edges mesh_topo) F \<longrightarrow> 7 \<le> total_weight F)) \<and>
   is_mst_weight (edges mesh_topo) 7"
proof -
  have f: "ufset mesh_topo = Some (UnionFindSet_init 4)" by code_simp
  have r: "in_range 4 (edges mesh_topo)" by code_simp
  have w: "wf_topo mesh_topo" unfolding mesh_topo_def by (rule wf_topo_rebuild)
  have z: "(0::int) \<le> 4" by simp
  from Kruskal_minimum_weight[of 4 mesh_topo, OF z f r w, THEN conjunct1]
  obtain tree t' T where k: "Kruskal mesh_topo = Some (Inr tree, t')" and
    T: "tree = map ends T" "spanning_forest (edges mesh_topo) T"
       "tree_weight mesh_topo tree = total_weight T"
       "\<forall>F. spanning_forest (edges mesh_topo) F \<longrightarrow> total_weight T \<le> total_weight F" and
    m: "is_mst_weight (edges mesh_topo) (tree_weight mesh_topo tree)" by blast
  from k have tr: "tree = [(1, 3), (2, 3), (1, 4)]" unfolding mesh_Kruskal by simp
  have tw: "total_weight T = 7" using T(3) mesh_tree_weight unfolding tr by simp
  have "[(1, 3), (2, 3), (1, 4)] = map ends T \<and> spanning_forest (edges mesh_topo) T \<and>
        total_weight T = 7 \<and>
        (\<forall>F. spanning_forest (edges mesh_topo) F \<longrightarrow> 7 \<le> total_weight F)"
    using T(1,2,4) tw unfolding tr by simp
  then have ex: "\<exists>T. [(1, 3), (2, 3), (1, 4)] = map ends T \<and> spanning_forest (edges mesh_topo) T \<and>
        total_weight T = 7 \<and>
        (\<forall>F. spanning_forest (edges mesh_topo) F \<longrightarrow> 7 \<le> total_weight F)" by (rule exI)
  have "is_mst_weight (edges mesh_topo) 7" using m mesh_tree_weight unfolding tr by simp
  with ex mesh_Kruskal show ?thesis by blast
qed

text \<open>
  C3 as stated fails in its particular: on the 4-switch full mesh with the weights
  \<open>{(1,2):3, (1,3):1, (1,4):4, (2,3):2, (2,4):5, (3,4):6}\<close> the tree produced is
  \<open>[(1, 3), (2, 3), (1, 4)]\<close>, of total weight 7, not 6.
\<close>

theorem mesh_weight_counterexample:
  "Kruskal mesh_topo =
     Some (Inr [(1, 3), (2, 3), (1, 4)],
           mesh_topo\<lparr>ufset := Some \<lparr>fa = [0, 2, 2, 2, 2], uf_size = 4\<rparr>\<rparr>) \<and>
   tree_weight mesh_topo [(1, 3), (2, 3), (1, 4)] = 7 \<and>
   tree_weight mesh_topo [(1, 3), (2, 3), (1, 4)] \<noteq> 6 \<and>
   map (\<lambda>e. (fst e, fst (snd e), edge_weight e)) (edges mesh_topo) =
     [(1, 2, 3), (1, 3, 1), (1, 4, 4), (2, 1, 3), (2, 3, 2), (2, 4, 5),
      (3, 1, 1), (3, 2, 2), (3, 4, 6), (4, 1, 4), (4, 2, 5), (4, 3, 6)]"
  by code_simp

end
